theory Spec2Isabelle
  imports Main
begin

section \<open>Values and trees\<close>

text \<open>
  The Value Tree, the Touched Tree and the Error Tree of \<^verbatim>\<open>packages/core/src/helpers.ts\<close>
  are JavaScript values: scalars, arrays and plain objects. An object is an association
  list, so that the insertion order of its keys is kept. Numbers are integers here; no
  operation of the helpers computes with them. Trees are immutable values, which is the
  copy-on-write discipline the structural operations of \<^verbatim>\<open>@felte/common\<close> follow; the
  section on the data store by reference states that discipline over a heap, where the
  helpers do to the trees what they do here.
\<close>

datatype jsval =
    Undefined
  | Null
  | Bool bool
  | Num int
  | Str string
  | Arr "jsval list"
  | Obj "(string \<times> jsval) list"

datatype error =
    MalformedPath
  | ValidatorFailure string

text \<open>JavaScript truthiness, as used by \<^verbatim>\<open>currentErrors || {}\<close>.\<close>

fun truthy :: "jsval \<Rightarrow> bool" where
  "truthy Undefined = False"
| "truthy Null = False"
| "truthy (Bool b) = b"
| "truthy (Num n) = (n \<noteq> 0)"
| "truthy (Str s) = (s \<noteq> [])"
| "truthy (Arr xs) = True"
| "truthy (Obj kvs) = True"

section \<open>Path codec\<close>

datatype segment = Key string | Index nat

definition is_digit :: "char \<Rightarrow> bool" where
  "is_digit c \<longleftrightarrow> c \<in> set ''0123456789''"

definition digit_val :: "char \<Rightarrow> nat" where
  "digit_val c = of_char c - 48"

definition nat_of_digits :: "string \<Rightarrow> nat" where
  "nat_of_digits ds = foldl (\<lambda>n c. 10 * n + digit_val c) 0 ds"

definition cons_segment :: "segment \<Rightarrow> error + segment list \<Rightarrow> error + segment list" where
  "cons_segment sg r = (case r of Inl e \<Rightarrow> Inl e | Inr sgs \<Rightarrow> Inr (sg # sgs))"

text \<open>
  Modelled from the spec: the path parser of \<^verbatim>\<open>@felte/common\<close> is not among the sources.
  The spec gives the grammar \<^verbatim>\<open>segment ('.' segment | '[' index ']')*\<close> and says that
  parsing fails with \<^verbatim>\<open>MalformedPath\<close> on an empty segment and on an index that is not a
  non-negative integer literal. The spec names no alphabet for a segment: here it is any
  non-empty run of characters other than the three delimiters. A string outside the
  grammar is malformed.
\<close>

fun parse_key :: "string \<Rightarrow> string \<Rightarrow> error + segment list"
  and parse_index :: "string \<Rightarrow> string \<Rightarrow> error + segment list"
  and parse_after :: "string \<Rightarrow> error + segment list" where
  "parse_key acc [] = (if acc = [] then Inl MalformedPath else Inr [Key acc])"
| "parse_key acc (c # cs) =
     (if c = CHR ''.'' then
        (if acc = [] then Inl MalformedPath else cons_segment (Key acc) (parse_key [] cs))
      else if c = CHR ''['' then
        (if acc = [] then Inl MalformedPath else cons_segment (Key acc) (parse_index [] cs))
      else if c = CHR '']'' then Inl MalformedPath
      else parse_key (acc @ [c]) cs)"
| "parse_index acc [] = Inl MalformedPath"
| "parse_index acc (c # cs) =
     (if c = CHR '']'' then
        (if acc = [] then Inl MalformedPath
         else cons_segment (Index (nat_of_digits acc)) (parse_after cs))
      else if is_digit c then parse_index (acc @ [c]) cs
      else Inl MalformedPath)"
| "parse_after [] = Inr []"
| "parse_after (c # cs) =
     (if c = CHR ''.'' then parse_key [] cs
      else if c = CHR ''['' then parse_index [] cs
      else Inl MalformedPath)"

definition parse :: "string \<Rightarrow> error + segment list" where
  "parse path = parse_key [] path"

section \<open>Deep structural operations\<close>

text \<open>
  Modelled from the spec: \<^verbatim>\<open>_get\<close> and \<^verbatim>\<open>_set\<close> of \<^verbatim>\<open>@felte/common\<close> are imported by
  \<^verbatim>\<open>helpers.ts\<close> and are not among the sources (the leading underscore of a source name
  is written \<open>u_\<close>). The spec: \<^verbatim>\<open>get\<close> walks the root along the segments and yields
  \<^verbatim>\<open>undefined\<close> when an intermediate is missing; \<^verbatim>\<open>set\<close> returns a new root with the
  target location replaced, creating a missing intermediate container as an array for an
  index segment and as an object for a key segment. Writing an array index at or beyond
  the length extends the array, the new slots before the index holding \<^verbatim>\<open>undefined\<close>.

  The spec does not say what happens when a segment meets a container of the other
  kind. Here the container is kept, with all it holds, as a JavaScript container is: an
  index addresses the field of an object that is named by the decimal numeral of the
  index, a key that is such a numeral addresses the element of an array, and an array
  that is given a field of another name is written as the object of its elements, each
  under the numeral of its index, with that field.

  A container is the list of its elements or the list of its fields, whatever the
  elements are; the operations on one level of a tree are stated once for all of them,
  \<open>u\<close> being the element that stands for \<^verbatim>\<open>undefined\<close>.
\<close>

datatype 'a container = Elems "'a list" | Fields "(string \<times> 'a) list"

fun string_of_nat :: "nat \<Rightarrow> string" where
  "string_of_nat n =
     (if n < 10 then [char_of (48 + n)]
      else string_of_nat (n div 10) @ [char_of (48 + n mod 10)])"

declare string_of_nat.simps [simp del]

definition is_index :: "string \<Rightarrow> bool" where
  "is_index k \<longleftrightarrow> k = string_of_nat (nat_of_digits k)"

fun lookup_field :: "'a \<Rightarrow> string \<Rightarrow> (string \<times> 'a) list \<Rightarrow> 'a" where
  "lookup_field u k [] = u"
| "lookup_field u k ((k', v) # kvs) = (if k = k' then v else lookup_field u k kvs)"

fun update_field :: "string \<Rightarrow> 'a \<Rightarrow> (string \<times> 'a) list \<Rightarrow> (string \<times> 'a) list" where
  "update_field k v [] = [(k, v)]"
| "update_field k v ((k', v') # kvs) =
     (if k = k' then (k, v) # kvs else (k', v') # update_field k v kvs)"

definition lookup_elem :: "'a \<Rightarrow> nat \<Rightarrow> 'a list \<Rightarrow> 'a" where
  "lookup_elem u i xs = (if i < length xs then xs ! i else u)"

definition update_elem :: "'a \<Rightarrow> nat \<Rightarrow> 'a \<Rightarrow> 'a list \<Rightarrow> 'a list" where
  "update_elem u i v xs =
     (if i < length xs then xs[i := v]
      else xs @ replicate (i - length xs) u @ [v])"

fun index_fields :: "nat \<Rightarrow> 'a list \<Rightarrow> (string \<times> 'a) list" where
  "index_fields n [] = []"
| "index_fields n (x # xs) = (string_of_nat n, x) # index_fields (Suc n) xs"

fun get_prop :: "'a \<Rightarrow> segment \<Rightarrow> 'a container option \<Rightarrow> 'a" where
  "get_prop u (Key k) (Some (Fields kvs)) = lookup_field u k kvs"
| "get_prop u (Index i) (Some (Elems xs)) = lookup_elem u i xs"
| "get_prop u (Index i) (Some (Fields kvs)) = lookup_field u (string_of_nat i) kvs"
| "get_prop u (Key k) (Some (Elems xs)) =
     (if is_index k then lookup_elem u (nat_of_digits k) xs else u)"
| "get_prop u sg None = u"

fun set_prop :: "'a \<Rightarrow> segment \<Rightarrow> 'a \<Rightarrow> 'a container option \<Rightarrow> 'a container" where
  "set_prop u (Key k) x (Some (Fields kvs)) = Fields (update_field k x kvs)"
| "set_prop u (Index i) x (Some (Elems xs)) = Elems (update_elem u i x xs)"
| "set_prop u (Index i) x (Some (Fields kvs)) = Fields (update_field (string_of_nat i) x kvs)"
| "set_prop u (Key k) x (Some (Elems xs)) =
     (if is_index k then Elems (update_elem u (nat_of_digits k) x xs)
      else Fields (update_field k x (index_fields 0 xs)))"
| "set_prop u (Key k) x None = Fields [(k, x)]"
| "set_prop u (Index i) x None = Elems (update_elem u i x [])"

fun container_of :: "jsval \<Rightarrow> jsval container option" where
  "container_of (Arr xs) = Some (Elems xs)"
| "container_of (Obj kvs) = Some (Fields kvs)"
| "container_of _ = None"

fun jsval_of :: "jsval container \<Rightarrow> jsval" where
  "jsval_of (Elems xs) = Arr xs"
| "jsval_of (Fields kvs) = Obj kvs"

definition child :: "segment \<Rightarrow> jsval \<Rightarrow> jsval" where
  "child sg root = get_prop Undefined sg (container_of root)"

fun resolve :: "segment list \<Rightarrow> jsval \<Rightarrow> jsval" where
  "resolve [] root = root"
| "resolve (sg # sgs) root = resolve sgs (child sg root)"

fun set_segments :: "segment list \<Rightarrow> jsval \<Rightarrow> jsval \<Rightarrow> jsval" where
  "set_segments [] root v = v"
| "set_segments (sg # sgs) root v =
     jsval_of (set_prop Undefined sg (set_segments sgs (child sg root) v) (container_of root))"

definition u_get :: "jsval \<Rightarrow> string \<Rightarrow> error + jsval" where
  "u_get root path =
     (case parse path of Inl e \<Rightarrow> Inl e | Inr sgs \<Rightarrow> Inr (resolve sgs root))"

definition u_set :: "jsval \<Rightarrow> string \<Rightarrow> jsval \<Rightarrow> error + jsval" where
  "u_set root path v =
     (case parse path of Inl e \<Rightarrow> Inl e | Inr sgs \<Rightarrow> Inr (set_segments sgs root v))"

text \<open>
  Modelled from the spec: \<^verbatim>\<open>deepSet\<close> and \<^verbatim>\<open>_cloneDeep\<close> of \<^verbatim>\<open>@felte/common\<close> are not among
  the sources. The spec: \<^verbatim>\<open>deepSet(root, constant)\<close> returns a structure of the shape of
  the root in which every leaf scalar is replaced by the constant; \<^verbatim>\<open>deepClone(value)\<close>
  rebuilds every array and object of the value.
\<close>

primrec deepSet :: "jsval \<Rightarrow> jsval \<Rightarrow> jsval" where
  "deepSet Undefined c = c"
| "deepSet Null c = c"
| "deepSet (Bool b) c = c"
| "deepSet (Num n) c = c"
| "deepSet (Str s) c = c"
| "deepSet (Arr xs) c = Arr (map (\<lambda>x. deepSet x c) xs)"
| "deepSet (Obj kvs) c = Obj (map (map_prod id (\<lambda>x. deepSet x c)) kvs)"

primrec u_cloneDeep :: "jsval \<Rightarrow> jsval" where
  "u_cloneDeep Undefined = Undefined"
| "u_cloneDeep Null = Null"
| "u_cloneDeep (Bool b) = Bool b"
| "u_cloneDeep (Num n) = Num n"
| "u_cloneDeep (Str s) = Str s"
| "u_cloneDeep (Arr xs) = Arr (map u_cloneDeep xs)"
| "u_cloneDeep (Obj kvs) = Obj (map (map_prod id u_cloneDeep) kvs)"

text \<open>The leaves of a tree, left to right, and the comparison of two trees by shape.\<close>

primrec leaves :: "jsval \<Rightarrow> jsval list" where
  "leaves Undefined = [Undefined]"
| "leaves Null = [Null]"
| "leaves (Bool b) = [Bool b]"
| "leaves (Num n) = [Num n]"
| "leaves (Str s) = [Str s]"
| "leaves (Arr xs) = concat (map leaves xs)"
| "leaves (Obj kvs) = concat (map snd (map (map_prod id leaves) kvs))"

fun is_leaf :: "jsval \<Rightarrow> bool" where
  "is_leaf (Arr xs) = False"
| "is_leaf (Obj kvs) = False"
| "is_leaf _ = True"

fun same_shape :: "jsval \<Rightarrow> jsval \<Rightarrow> bool" where
  "same_shape (Arr xs) (Arr ys) = list_all2 same_shape xs ys"
| "same_shape (Obj kvs) (Obj kws) =
     list_all2 (\<lambda>kv kw. fst kv = fst kw \<and> same_shape (snd kv) (snd kw)) kvs kws"
| "same_shape a b = (is_leaf a \<and> is_leaf b)"

section \<open>Validation executor\<close>

type_synonym validator = "jsval \<Rightarrow> error + jsval"

text \<open>
  Modelled from the spec: \<^verbatim>\<open>executeValidation\<close> and the merge it uses are not among the
  sources. A validator maps the snapshot to an Error Tree, to \<^verbatim>\<open>undefined\<close> (no errors), or
  fails; its eventual answer is a function of the snapshot it was given. The spec: every
  validator runs on the same snapshot; a failing validator makes the whole run fail;
  results merge in registry order, the later validator's leaves winning and the entries
  it does not address being kept; when every validator answers empty the run answers
  empty. The spec does not say which failure is reported when several validators fail:
  here it is the first in registry order. An array of messages is a leaf of an Error
  Tree, so a later array replaces an earlier one.
\<close>

fun merge :: "jsval \<Rightarrow> jsval \<Rightarrow> jsval" where
  "merge a Undefined = a"
| "merge (Obj afs) (Obj bfs) =
     Obj (fold (\<lambda>(k, bv) acc. update_field k (merge (lookup_field Undefined k acc) bv) acc) bfs afs)"
| "merge a b = b"

fun run_validators :: "validator list \<Rightarrow> jsval \<Rightarrow> error + jsval list" where
  "run_validators [] values = Inr []"
| "run_validators (f # fs) values =
     (case f values of
        Inl e \<Rightarrow> Inl e
      | Inr r \<Rightarrow> (case run_validators fs values of Inl e \<Rightarrow> Inl e | Inr rs \<Rightarrow> Inr (r # rs)))"

definition executeValidation :: "jsval \<Rightarrow> validator list \<Rightarrow> error + jsval" where
  "executeValidation values validations =
     (case run_validators validations values of
        Inl e \<Rightarrow> Inl e
      | Inr rs \<Rightarrow> Inr (foldl merge Undefined rs))"

section \<open>Stores and form state\<close>

text \<open>
  The three stores, the attached form node and the Initial Values Snapshot are the state
  that \<^verbatim>\<open>createHelpers\<close> closes over. The store primitive of the spec: \<^verbatim>\<open>set\<close> replaces
  the value and notifies the subscribers before it returns, \<^verbatim>\<open>update\<close> reads the value,
  applies the function and sets the result. The trace records every store write, and
  every start of a validation run with the snapshot it was given, in the order in which
  they happen.
\<close>

datatype event =
    Data_written jsval
  | Touched_written jsval
  | Errors_written jsval
  | Validation_started jsval

record 'el helpers_state =
  data :: jsval
  touched :: jsval
  errors :: jsval
  formNode :: "'el list option"
  initialValues :: jsval
  trace :: "event list"

text \<open>
  \<^verbatim>\<open>config.validate\<close> is one validation function, an array of them, or absent: a list of
  length one, any list, or the empty list.
\<close>

record config =
  cfg_validate :: "validator list"
  cfg_initialValues :: "jsval option"

text \<open>
  The control-binding bridge. \<^verbatim>\<open>isFormControl\<close>, \<^verbatim>\<open>getPath\<close>, \<^verbatim>\<open>setControlValue\<close> and
  \<^verbatim>\<open>setForm\<close> belong to the DOM side of \<^verbatim>\<open>@felte/common\<close>, which is not among the sources
  and which the spec treats as an external collaborator: the helpers are stated for any
  such functions over any type of form elements. A form node is the list of its
  \<^verbatim>\<open>elements\<close>; \<open>controlName\<close> reads \<^verbatim>\<open>control.name\<close>, the empty string being falsy.
  Pushing a value into a control changes that control only.
\<close>

record 'el bridge =
  isFormControl :: "'el \<Rightarrow> bool"
  controlName :: "'el \<Rightarrow> string"
  getPath :: "'el \<Rightarrow> string"
  setControlValue :: "'el \<Rightarrow> jsval \<Rightarrow> 'el"
  setForm :: "'el list \<Rightarrow> jsval \<Rightarrow> 'el list"

definition data_set :: "jsval \<Rightarrow> 'el helpers_state \<Rightarrow> 'el helpers_state" where
  "data_set v s = s\<lparr>data := v, trace := trace s @ [Data_written v]\<rparr>"

definition touched_set :: "jsval \<Rightarrow> 'el helpers_state \<Rightarrow> 'el helpers_state" where
  "touched_set v s = s\<lparr>touched := v, trace := trace s @ [Touched_written v]\<rparr>"

definition errors_set :: "jsval \<Rightarrow> 'el helpers_state \<Rightarrow> 'el helpers_state" where
  "errors_set v s = s\<lparr>errors := v, trace := trace s @ [Errors_written v]\<rparr>"

section \<open>The helpers\<close>

definition string_of_int :: "int \<Rightarrow> string" where
  "string_of_int i = (if i < 0 then CHR ''-'' # string_of_nat (nat (- i)) else string_of_nat (nat i))"

text \<open>
  An operation that can raise returns the error or its value, and the state it leaves
  behind. \<^verbatim>\<open>setTouched(fieldName, index?)\<close>: the index is an integer when given.
\<close>

definition setTouched ::
  "string \<Rightarrow> int option \<Rightarrow> 'el helpers_state \<Rightarrow> (error + unit) \<times> 'el helpers_state" where
  "setTouched fieldName index s =
     (let path = (case index of
                    None \<Rightarrow> fieldName
                  | Some i \<Rightarrow> fieldName @ ''['' @ string_of_int i @ '']'')
      in case u_set (touched s) path (Bool True) of
           Inl e \<Rightarrow> (Inl e, s)
         | Inr t \<Rightarrow> (Inr (), touched_set t s))"

definition setError ::
  "string \<Rightarrow> jsval \<Rightarrow> 'el helpers_state \<Rightarrow> (error + unit) \<times> 'el helpers_state" where
  "setError path err s =
     (case u_set (errors s) path err of
        Inl e \<Rightarrow> (Inl e, s)
      | Inr t \<Rightarrow> (Inr (), errors_set t s))"

text \<open>
  The loop of \<^verbatim>\<open>setField\<close> over \<^verbatim>\<open>formNode.elements\<close>: it skips what is not a named form
  control and what has another path, writes the first control it does not skip, and
  returns.
\<close>

fun push_control :: "'el bridge \<Rightarrow> string \<Rightarrow> jsval \<Rightarrow> 'el list \<Rightarrow> 'el list" where
  "push_control br path v [] = []"
| "push_control br path v (control # rest) =
     (if \<not> isFormControl br control \<or> controlName br control = [] then
        control # push_control br path v rest
      else if path \<noteq> getPath br control then control # push_control br path v rest
      else setControlValue br control v # rest)"

text \<open>\<^verbatim>\<open>setField(path, value?, touch = true)\<close>: an absent \<open>touch\<close> is \<open>None\<close>.\<close>

definition setField ::
  "'el bridge \<Rightarrow> string \<Rightarrow> jsval \<Rightarrow> bool option \<Rightarrow> 'el helpers_state
     \<Rightarrow> (error + unit) \<times> 'el helpers_state" where
  "setField br path v touch s =
     (case u_set (data s) path v of
        Inl e \<Rightarrow> (Inl e, s)
      | Inr d \<Rightarrow>
          (case (if (case touch of None \<Rightarrow> True | Some b \<Rightarrow> b)
                 then setTouched path None (data_set d s)
                 else (Inr (), data_set d s)) of
             (Inl e, s2) \<Rightarrow> (Inl e, s2)
           | (Inr u, s2) \<Rightarrow>
               (case formNode s2 of
                  None \<Rightarrow> (Inr (), s2)
                | Some els \<Rightarrow> (Inr (), s2\<lparr>formNode := Some (push_control br path v els)\<rparr>))))"

definition setFields :: "'el bridge \<Rightarrow> jsval \<Rightarrow> 'el helpers_state \<Rightarrow> 'el helpers_state" where
  "setFields br values s =
     (let s1 = data_set (u_cloneDeep values) s
      in case formNode s1 of
           None \<Rightarrow> s1
         | Some els \<Rightarrow> s1\<lparr>formNode := Some (setForm br els values)\<rparr>)"

text \<open>
  \<^verbatim>\<open>validate\<close> is asynchronous: it runs up to its \<^verbatim>\<open>await\<close>, and resumes when the promise
  of \<^verbatim>\<open>executeValidation\<close> settles. \<open>validate_start\<close> is the part before the
  \<^verbatim>\<open>await\<close> and yields the eventual outcome of the promise; \<open>validate_finish\<close> is the
  part after it, run on the state the stores have by then. \<open>validate\<close> is the call with
  nothing in between.
\<close>

definition validate_start ::
  "config \<Rightarrow> 'el helpers_state \<Rightarrow> (error + jsval) \<times> 'el helpers_state" where
  "validate_start cfg s =
     (let currentData = data s;
          s1 = touched_set (deepSet (touched s) (Bool True)) s;
          s2 = s1\<lparr>trace := trace s1 @ [Validation_started currentData]\<rparr>
      in (executeValidation currentData (cfg_validate cfg), s2))"

definition validate_finish ::
  "error + jsval \<Rightarrow> 'el helpers_state \<Rightarrow> (error + jsval) \<times> 'el helpers_state" where
  "validate_finish awaited s =
     (case awaited of
        Inl e \<Rightarrow> (Inl e, s)
      | Inr currentErrors \<Rightarrow>
          (Inr currentErrors,
           errors_set (if truthy currentErrors then currentErrors else Obj []) s))"

definition validate ::
  "config \<Rightarrow> 'el helpers_state \<Rightarrow> (error + jsval) \<times> 'el helpers_state" where
  "validate cfg s = (case validate_start cfg s of (awaited, s1) \<Rightarrow> validate_finish awaited s1)"

definition reset :: "'el bridge \<Rightarrow> 'el helpers_state \<Rightarrow> 'el helpers_state" where
  "reset br s =
     (let s1 = setFields br (u_cloneDeep (initialValues s)) s
      in touched_set (deepSet (touched s1) (Bool False)) s1)"

text \<open>The private accessors, and the state \<^verbatim>\<open>createHelpers\<close> starts from.\<close>

definition u_setFormNode :: "'el list \<Rightarrow> 'el helpers_state \<Rightarrow> 'el helpers_state" where
  "u_setFormNode node s = s\<lparr>formNode := Some node\<rparr>"

definition u_getFormNode :: "'el helpers_state \<Rightarrow> 'el list option" where
  "u_getFormNode s = formNode s"

definition u_getInitialValues :: "'el helpers_state \<Rightarrow> jsval" where
  "u_getInitialValues s = initialValues s"

definition u_setInitialValues :: "jsval \<Rightarrow> 'el helpers_state \<Rightarrow> 'el helpers_state" where
  "u_setInitialValues values s = s\<lparr>initialValues := values\<rparr>"

definition createHelpers :: "config \<Rightarrow> jsval \<Rightarrow> jsval \<Rightarrow> jsval \<Rightarrow> 'el helpers_state" where
  "createHelpers cfg d t e =
     \<lparr>data = d, touched = t, errors = e, formNode = None,
      initialValues = (case cfg_initialValues cfg of None \<Rightarrow> Obj [] | Some iv \<Rightarrow> iv),
      trace = []\<rparr>"

section \<open>The data store by reference\<close>

text \<open>
  A JavaScript array or object is held by reference: what the validators of an in-flight
  \<^verbatim>\<open>validate\<close> were given is a reference to the Value Tree, and they read the tree
  through it. Here the data store is stated once more, over a heap. The heap is the list
  of the containers allocated so far, a reference is the index of its container, and
  allocation appends; a value is a scalar or a reference. A heap is well formed when
  every reference a container holds is to a container allocated before it, as it is for
  every container the operations below allocate.
\<close>

datatype hval = HUndefined | HNull | HBool bool | HNum int | HStr string | HRef nat

type_synonym heap = "hval container list"

fun below :: "nat \<Rightarrow> hval \<Rightarrow> bool" where
  "below n (HRef a) = (a < n)"
| "below n r = True"

definition wf_heap :: "heap \<Rightarrow> bool" where
  "wf_heap h \<longleftrightarrow> (\<forall>a<length h. \<forall>r\<in>set_container (h ! a). below a r)"

text \<open>
  The tree a value stands for. A container is read in the heap below it; a reference to
  nothing allocated reads as \<^verbatim>\<open>undefined\<close>.
\<close>

fun read_tree :: "heap \<Rightarrow> hval \<Rightarrow> jsval" where
  "read_tree h HUndefined = Undefined"
| "read_tree h HNull = Null"
| "read_tree h (HBool b) = Bool b"
| "read_tree h (HNum n) = Num n"
| "read_tree h (HStr s) = Str s"
| "read_tree h (HRef a) =
     (if a < length h then jsval_of (map_container (read_tree (take a h)) (h ! a))
      else Undefined)"

text \<open>
  Modelled from the spec: \<^verbatim>\<open>_set\<close> of \<^verbatim>\<open>@felte/common\<close> is not among the sources. The
  spec: \<^verbatim>\<open>set\<close> is copy-on-write, every container along the path down to the root is
  freshly allocated and all siblings are reused by reference. \<open>hset\<close> follows
  \<open>set_segments\<close> level by level, with \<open>set_prop\<close> on the references of the container
  it meets, and allocates the container it writes; no container of the heap is changed.
\<close>

fun hcontainer :: "heap \<Rightarrow> hval \<Rightarrow> hval container option" where
  "hcontainer h (HRef a) = (if a < length h then Some (h ! a) else None)"
| "hcontainer h r = None"

definition hchild :: "heap \<Rightarrow> segment \<Rightarrow> hval \<Rightarrow> hval" where
  "hchild h sg r = get_prop HUndefined sg (hcontainer h r)"

fun hset :: "segment list \<Rightarrow> hval \<Rightarrow> hval \<Rightarrow> heap \<Rightarrow> hval \<times> heap" where
  "hset [] r v h = (v, h)"
| "hset (sg # sgs) r v h =
     (case hset sgs (hchild h sg r) v h of
        (c, h1) \<Rightarrow> (HRef (length h1), h1 @ [set_prop HUndefined sg c (hcontainer h r)]))"

text \<open>
  Modelled from the spec: \<^verbatim>\<open>_cloneDeep\<close> of \<^verbatim>\<open>@felte/common\<close> is not among the sources.
  The spec: a deep clone is a fully independent copy, no nested reference shared.
  \<open>build\<close> allocates every container of a tree anew, the children before the parent;
  the clone of a value is the tree it stands for, built anew.
\<close>

fun build :: "jsval \<Rightarrow> heap \<Rightarrow> hval \<times> heap"
  and build_list :: "jsval list \<Rightarrow> heap \<Rightarrow> hval list \<times> heap"
  and build_fields :: "(string \<times> jsval) list \<Rightarrow> heap \<Rightarrow> (string \<times> hval) list \<times> heap" where
  "build Undefined h = (HUndefined, h)"
| "build Null h = (HNull, h)"
| "build (Bool b) h = (HBool b, h)"
| "build (Num n) h = (HNum n, h)"
| "build (Str s) h = (HStr s, h)"
| "build (Arr xs) h = (case build_list xs h of (rs, h1) \<Rightarrow> (HRef (length h1), h1 @ [Elems rs]))"
| "build (Obj kvs) h =
     (case build_fields kvs h of (krs, h1) \<Rightarrow> (HRef (length h1), h1 @ [Fields krs]))"
| "build_list [] h = ([], h)"
| "build_list (x # xs) h =
     (case build x h of (r, h1) \<Rightarrow> (case build_list xs h1 of (rs, h2) \<Rightarrow> (r # rs, h2)))"
| "build_fields [] h = ([], h)"
| "build_fields ((k, x) # kvs) h =
     (case build x h of (r, h1) \<Rightarrow> (case build_fields kvs h1 of (krs, h2) \<Rightarrow> ((k, r) # krs, h2)))"

definition h_set :: "heap \<Rightarrow> hval \<Rightarrow> string \<Rightarrow> hval \<Rightarrow> error + hval \<times> heap" where
  "h_set h root path v =
     (case parse path of Inl e \<Rightarrow> Inl e | Inr sgs \<Rightarrow> Inr (hset sgs root v h))"

definition h_cloneDeep :: "heap \<Rightarrow> hval \<Rightarrow> hval \<times> heap" where
  "h_cloneDeep h r = build (read_tree h r) h"

text \<open>
  A heap extends another when it keeps every container of it in place.
\<close>

definition extends :: "heap \<Rightarrow> heap \<Rightarrow> bool" where
  "extends h h' \<longleftrightarrow> take (length h) h' = h"

text \<open>
  The state of the helpers with the data store holding a reference. The Touched Tree,
  the Error Tree and the Initial Values Snapshot stay trees: what is stated on
  references is about the data store. \<open>view\<close> reads such a state as a state of trees.
\<close>

record 'el ref_state =
  heap :: heap
  data_ref :: hval
  touched_tree :: jsval
  errors_tree :: jsval
  form :: "'el list option"
  initial_tree :: jsval
  events :: "event list"

definition view :: "'el ref_state \<Rightarrow> 'el helpers_state" where
  "view s =
     \<lparr>data = read_tree (heap s) (data_ref s), touched = touched_tree s,
      errors = errors_tree s, formNode = form s, initialValues = initial_tree s,
      trace = events s\<rparr>"

text \<open>
  \<^verbatim>\<open>setTouched\<close>, \<^verbatim>\<open>setField\<close> and \<^verbatim>\<open>setFields\<close> once more, line by line as above, the
  value of \<^verbatim>\<open>setField\<close> and the values of \<^verbatim>\<open>setFields\<close> being what the caller holds:
  a scalar or a reference.
\<close>

definition data_set_r :: "hval \<Rightarrow> heap \<Rightarrow> 'el ref_state \<Rightarrow> 'el ref_state" where
  "data_set_r d h s =
     s\<lparr>heap := h, data_ref := d, events := events s @ [Data_written (read_tree h d)]\<rparr>"

definition touched_set_r :: "jsval \<Rightarrow> 'el ref_state \<Rightarrow> 'el ref_state" where
  "touched_set_r v s = s\<lparr>touched_tree := v, events := events s @ [Touched_written v]\<rparr>"

definition errors_set_r :: "jsval \<Rightarrow> 'el ref_state \<Rightarrow> 'el ref_state" where
  "errors_set_r v s = s\<lparr>errors_tree := v, events := events s @ [Errors_written v]\<rparr>"

definition setTouched_r ::
  "string \<Rightarrow> int option \<Rightarrow> 'el ref_state \<Rightarrow> (error + unit) \<times> 'el ref_state" where
  "setTouched_r fieldName index s =
     (let path = (case index of
                    None \<Rightarrow> fieldName
                  | Some i \<Rightarrow> fieldName @ ''['' @ string_of_int i @ '']'')
      in case u_set (touched_tree s) path (Bool True) of
           Inl e \<Rightarrow> (Inl e, s)
         | Inr t \<Rightarrow> (Inr (), touched_set_r t s))"

definition setField_r ::
  "'el bridge \<Rightarrow> string \<Rightarrow> hval \<Rightarrow> bool option \<Rightarrow> 'el ref_state
     \<Rightarrow> (error + unit) \<times> 'el ref_state" where
  "setField_r br path v touch s =
     (case h_set (heap s) (data_ref s) path v of
        Inl e \<Rightarrow> (Inl e, s)
      | Inr (d, h) \<Rightarrow>
          (case (if (case touch of None \<Rightarrow> True | Some b \<Rightarrow> b)
                 then setTouched_r path None (data_set_r d h s)
                 else (Inr (), data_set_r d h s)) of
             (Inl e, s2) \<Rightarrow> (Inl e, s2)
           | (Inr u, s2) \<Rightarrow>
               (case form s2 of
                  None \<Rightarrow> (Inr (), s2)
                | Some els \<Rightarrow>
                    (Inr (),
                     s2\<lparr>form := Some (push_control br path (read_tree (heap s2) v) els)\<rparr>))))"

definition setFields_r :: "'el bridge \<Rightarrow> hval \<Rightarrow> 'el ref_state \<Rightarrow> 'el ref_state" where
  "setFields_r br values s =
     (case h_cloneDeep (heap s) values of
        (d, h) \<Rightarrow>
          (let s1 = data_set_r d h s
           in case form s1 of
                None \<Rightarrow> s1
              | Some els \<Rightarrow> s1\<lparr>form := Some (setForm br els (read_tree (heap s1) values))\<rparr>))"

text \<open>
  \<open>validate_start_r\<close> is \<^verbatim>\<open>validate\<close> up to its \<^verbatim>\<open>await\<close>: it yields the reference
  \<^verbatim>\<open>currentData\<close> that the validators were given. \<open>validate_finish_r\<close> is the rest:
  the validators answer from the tree they read through that reference, and they are
  taken to read as late as they can, in the heap as it is when \<^verbatim>\<open>validate\<close> resumes.
\<close>

definition validate_start_r :: "'el ref_state \<Rightarrow> hval \<times> 'el ref_state" where
  "validate_start_r s =
     (let currentData = data_ref s;
          s1 = touched_set_r (deepSet (touched_tree s) (Bool True)) s;
          s2 = s1\<lparr>events := events s1 @ [Validation_started (read_tree (heap s1) currentData)]\<rparr>
      in (currentData, s2))"

definition validate_finish_r ::
  "config \<Rightarrow> hval \<Rightarrow> 'el ref_state \<Rightarrow> (error + jsval) \<times> 'el ref_state" where
  "validate_finish_r cfg currentData s =
     (case executeValidation (read_tree (heap s) currentData) (cfg_validate cfg) of
        Inl e \<Rightarrow> (Inl e, s)
      | Inr currentErrors \<Rightarrow>
          (Inr currentErrors,
           errors_set_r (if truthy currentErrors then currentErrors else Obj []) s))"

text \<open>
  A small form for the examples: an element carries whether it is a form control, its
  name, its derived path and the value last pushed into it.
\<close>

record element =
  el_control :: bool
  el_name :: string
  el_path :: string
  el_value :: jsval

definition sync_element :: "jsval \<Rightarrow> element \<Rightarrow> element" where
  "sync_element values el =
     (if el_control el \<and> el_name el \<noteq> [] then
        (case u_get values (el_path el) of
           Inl e \<Rightarrow> el
         | Inr v \<Rightarrow> el\<lparr>el_value := v\<rparr>)
      else el)"

definition example_bridge :: "element bridge" where
  "example_bridge =
     \<lparr>isFormControl = el_control, controlName = el_name, getPath = el_path,
      setControlValue = (\<lambda>el v. el\<lparr>el_value := v\<rparr>),
      setForm = (\<lambda>els values. map (sync_element values) els)\<rparr>"

definition example_form :: "element list" where
  "example_form =
     [\<lparr>el_control = False, el_name = ''email'', el_path = ''email'', el_value = Undefined\<rparr>,
      \<lparr>el_control = True, el_name = ''name'', el_path = ''name'', el_value = Str ''Ada''\<rparr>,
      \<lparr>el_control = True, el_name = ''email'', el_path = ''email'', el_value = Str []\<rparr>,
      \<lparr>el_control = True, el_name = ''email'', el_path = ''email'', el_value = Str []\<rparr>]"

definition example_state :: "element helpers_state" where
  "example_state =
     \<lparr>data = Obj [(''email'', Str []), (''name'', Str ''Ada'')],
      touched = Obj [(''name'', Bool False)],
      errors = Obj [(''name'', Str ''stale'')],
      formNode = Some example_form,
      initialValues = Obj [(''email'', Str []), (''name'', Str [])],
      trace = []\<rparr>"

definition required_email :: validator where
  "required_email values =
     (if child (Key ''email'') values = Str [] then Inr (Obj [(''email'', Str ''required'')])
      else Inr Undefined)"

definition rejecting :: validator where
  "rejecting values = Inl (ValidatorFailure ''schema unavailable'')"

definition example_config :: config where
  "example_config = \<lparr>cfg_validate = [required_email], cfg_initialValues = None\<rparr>"

definition rejecting_config :: config where
  "rejecting_config = \<lparr>cfg_validate = [required_email, rejecting], cfg_initialValues = None\<rparr>"

definition accepting :: validator where
  "accepting values = Inr (Obj [])"

definition accepting_config :: config where
  "accepting_config = \<lparr>cfg_validate = [accepting], cfg_initialValues = None\<rparr>"

definition no_validators :: config where
  "no_validators = \<lparr>cfg_validate = [], cfg_initialValues = None\<rparr>"

definition example_heap :: heap where
  "example_heap =
     [Elems [HStr ''a''],
      Fields [(''email'', HStr []), (''tags'', HRef 0)]]"

definition example_ref_state :: "element ref_state" where
  "example_ref_state =
     \<lparr>heap = example_heap, data_ref = HRef 1,
      touched_tree = Obj [], errors_tree = Obj [],
      form = None, initial_tree = Obj [], events = []\<rparr>"

definition reserved_tag :: validator where
  "reserved_tag values =
     (if resolve [Key ''tags'', Index 0] values = Str ''a''
      then Inr (Obj [(''tags'', Str ''reserved'')])
      else Inr Undefined)"

definition tag_config :: config where
  "tag_config = \<lparr>cfg_validate = [reserved_tag], cfg_initialValues = None\<rparr>"

text \<open>
  The name of the property a segment addresses: two segments address the same location
  of a container exactly when they have the same name. A control is the target of a
  path when the loop of \<^verbatim>\<open>setField\<close> does not skip it.
\<close>

fun seg_key :: "segment \<Rightarrow> string" where
  "seg_key (Key k) = k"
| "seg_key (Index i) = string_of_nat i"

definition targets :: "'el bridge \<Rightarrow> string \<Rightarrow> 'el \<Rightarrow> bool" where
  "targets br path control \<longleftrightarrow>
     isFormControl br control \<and> controlName br control \<noteq> [] \<and> getPath br control = path"

section \<open>Decimal numerals and one level of a tree\<close>

lemma nat_of_digits_snoc: "nat_of_digits (ds @ [c]) = 10 * nat_of_digits ds + digit_val c"
  by (simp add: nat_of_digits_def)

lemma digit_val_char_of: "d < 10 \<Longrightarrow> digit_val (char_of (48 + d)) = d"
  by (simp add: digit_val_def)

lemma nat_of_digits_string_of_nat: "nat_of_digits (string_of_nat n) = n"
proof (induction n rule: string_of_nat.induct)
  case (1 n)
  show ?case
  proof (cases "n < 10")
    case True
    then have "string_of_nat n = [char_of (48 + n)]" by (simp add: string_of_nat.simps[of n])
    then show ?thesis using True digit_val_char_of[of n] by (simp add: nat_of_digits_def)
  next
    case False
    then have s: "string_of_nat n = string_of_nat (n div 10) @ [char_of (48 + n mod 10)]"
      by (simp add: string_of_nat.simps[of n])
    have "nat_of_digits (string_of_nat n) = 10 * (n div 10) + n mod 10"
      unfolding s nat_of_digits_snoc using "1.IH"[OF False] digit_val_char_of[of "n mod 10"]
      by simp
    then show ?thesis by simp
  qed
qed

lemma string_of_nat_inj: "string_of_nat m = string_of_nat n \<Longrightarrow> m = n"
proof -
  assume "string_of_nat m = string_of_nat n"
  then have "nat_of_digits (string_of_nat m) = nat_of_digits (string_of_nat n)" by (rule arg_cong)
  then show "m = n" by (simp only: nat_of_digits_string_of_nat)
qed

lemma is_index_string_of_nat: "is_index (string_of_nat n)"
  by (simp add: is_index_def nat_of_digits_string_of_nat)

lemma lookup_update_field: "lookup_field u k (update_field k v kvs) = v"
  by (induction kvs) auto

lemma lookup_update_elem: "lookup_elem u i (update_elem u i v xs) = v"
  by (simp add: lookup_elem_def update_elem_def nth_append)

lemma lookup_update_field_other:
  "k' \<noteq> k \<Longrightarrow> lookup_field u k' (update_field k v kvs) = lookup_field u k' kvs"
  by (induction kvs) auto

lemma lookup_update_elem_other:
  "j \<noteq> i \<Longrightarrow> lookup_elem u j (update_elem u i v xs) = lookup_elem u j xs"
  by (auto simp: lookup_elem_def update_elem_def nth_append nth_Cons')

lemma lookup_elem_Nil: "lookup_elem u j [] = u"
  by (simp add: lookup_elem_def)

lemma lookup_index_fields:
  "lookup_field u (string_of_nat j) (index_fields n xs)
     = (if n \<le> j \<and> j < n + length xs then xs ! (j - n) else u)"
proof (induction xs arbitrary: n)
  case Nil
  then show ?case by auto
next
  case (Cons x xs)
  show ?case
  proof (cases "j = n")
    case True
    then show ?thesis by simp
  next
    case False
    then have "string_of_nat j \<noteq> string_of_nat n" using string_of_nat_inj by blast
    then show ?thesis using Cons.IH[of "Suc n"] False
      by (auto simp: nth_Cons' Suc_diff_le)
  qed
qed

lemma lookup_index_fields_key:
  "lookup_field u k (index_fields 0 xs)
     = (if is_index k then lookup_elem u (nat_of_digits k) xs else u)"
proof (cases "is_index k")
  case True
  then have k: "k = string_of_nat (nat_of_digits k)" by (simp add: is_index_def)
  show ?thesis
    using True lookup_index_fields[of u "nat_of_digits k" 0 xs] k
    by (simp add: lookup_elem_def)
next
  case False
  have "\<And>n. lookup_field u k (index_fields n xs) = u"
  proof (induction xs)
    case Nil
    show ?case by simp
  next
    case (Cons x xs)
    have "k \<noteq> string_of_nat n" using False is_index_string_of_nat by blast
    then show ?case using Cons by simp
  qed
  then show ?thesis using False by simp
qed

text \<open>One level: the written property reads the value, every other property reads as before.\<close>

lemma get_set_prop: "get_prop u sg (Some (set_prop u sg x c)) = x"
proof (cases c)
  case None
  then show ?thesis by (cases sg) (simp_all add: lookup_update_elem)
next
  case (Some ct)
  then show ?thesis
    by (cases sg; cases ct) (simp_all add: lookup_update_field lookup_update_elem)
qed

lemma get_set_prop_other:
  assumes "seg_key a \<noteq> seg_key b"
  shows "get_prop u b (Some (set_prop u a x c)) = get_prop u b c"
proof -
  have idx: "nat_of_digits k \<noteq> i" if "is_index k" "k \<noteq> string_of_nat i" for k i
    using that by (auto simp: is_index_def)
  show ?thesis
  proof (cases c)
    case None
    show ?thesis
    proof (cases a)
      case (Key k)
      with None assms show ?thesis by (cases b) auto
    next
      case (Index i)
      show ?thesis
      proof (cases b)
        case (Key k')
        with assms Index have "is_index k' \<Longrightarrow> nat_of_digits k' \<noteq> i"
          using idx[of k' i] by auto
        with None Index Key show ?thesis
          by (auto simp: lookup_update_elem_other lookup_elem_Nil)
      next
        case j: (Index j)
        with assms Index have "j \<noteq> i" by auto
        with None Index j show ?thesis
          by (simp add: lookup_update_elem_other lookup_elem_Nil)
      qed
    qed
  next
    case (Some ct)
    show ?thesis
    proof (cases ct)
      case (Fields kvs)
      with Some assms show ?thesis
        by (cases a; cases b) (auto simp: lookup_update_field_other)
    next
      case (Elems xs)
      show ?thesis
      proof (cases a)
        case (Index i)
        show ?thesis
        proof (cases b)
          case (Key k')
          with assms Index have "is_index k' \<Longrightarrow> nat_of_digits k' \<noteq> i"
            using idx[of k' i] by auto
          with Some Elems Index Key show ?thesis
            by (auto simp: lookup_update_elem_other)
        next
          case j: (Index j)
          with assms Index have "j \<noteq> i" by auto
          with Some Elems Index j show ?thesis
            by (simp add: lookup_update_elem_other)
        qed
      next
        case (Key k)
        show ?thesis
        proof (cases "is_index k")
          case True
          then have k: "k = string_of_nat (nat_of_digits k)" by (simp add: is_index_def)
          show ?thesis
          proof (cases b)
            case (Index j)
            with assms Key k have "j \<noteq> nat_of_digits k" by auto
            with Some Elems Key True Index show ?thesis
              by (simp add: lookup_update_elem_other)
          next
            case (Key k')
            with assms \<open>a = Key k\<close> have "k' \<noteq> k" by auto
            then have "is_index k' \<Longrightarrow> nat_of_digits k' \<noteq> nat_of_digits k"
              using k by (metis is_index_def)
            with Some Elems \<open>a = Key k\<close> True Key show ?thesis
              by (auto simp: lookup_update_elem_other)
          qed
        next
          case False
          show ?thesis
          proof (cases b)
            case (Index j)
            with assms Key have "string_of_nat j \<noteq> k" by auto
            with Some Elems Key False Index show ?thesis
              using lookup_index_fields[of u j 0 xs]
              by (simp add: lookup_update_field_other lookup_elem_def)
          next
            case (Key k')
            with assms \<open>a = Key k\<close> have "k' \<noteq> k" by auto
            with Some Elems \<open>a = Key k\<close> False Key show ?thesis
              by (simp add: lookup_update_field_other lookup_index_fields_key)
          qed
        qed
      qed
    qed
  qed
qed

lemma container_of_jsval_of: "container_of (jsval_of ct) = Some ct"
  by (cases ct) simp_all

lemma child_set_segments_same:
  "child sg (set_segments (sg # p) root v) = set_segments p (child sg root) v"
  by (simp add: child_def container_of_jsval_of get_set_prop)

lemma child_set_segments_other:
  "seg_key a \<noteq> seg_key b \<Longrightarrow> child b (set_segments (a # p) root v) = child b root"
  by (simp add: child_def container_of_jsval_of get_set_prop_other)

lemma resolve_set_segments: "resolve sgs (set_segments sgs root v) = v"
proof (induction sgs arbitrary: root)
  case Nil
  show ?case by simp
next
  case (Cons sg sgs)
  have "resolve (sg # sgs) (set_segments (sg # sgs) root v)
        = resolve sgs (set_segments sgs (child sg root) v)"
    using child_set_segments_same[of sg sgs root v] by simp
  then show ?case using Cons.IH by simp
qed

lemma resolve_set_segments_other:
  assumes "seg_key a \<noteq> seg_key b"
  shows "resolve (c @ b # q) (set_segments (c @ a # p) root v) = resolve (c @ b # q) root"
proof (induction c arbitrary: root)
  case Nil
  then show ?case using child_set_segments_other[OF assms, of p root v] by simp
next
  case (Cons sg c)
  have "resolve ((sg # c) @ b # q) (set_segments ((sg # c) @ a # p) root v)
        = resolve (c @ b # q) (set_segments (c @ a # p) (child sg root) v)"
    using child_set_segments_same[of sg "c @ a # p" root v] by simp
  also have "\<dots> = resolve (c @ b # q) (child sg root)"
    using Cons by simp
  finally show ?case by simp
qed

lemma child_Obj [simp]: "child (Key k) (Obj kvs) = lookup_field Undefined k kvs"
  by (simp add: child_def)

lemma child_Arr [simp]: "child (Index i) (Arr xs) = lookup_elem Undefined i xs"
  by (simp add: child_def)

section \<open>Clone, deepSet and the executor\<close>

lemma u_cloneDeep_id: "u_cloneDeep v = v"
proof (induction v)
  case (Arr xs)
  then show ?case by (simp add: map_idI)
next
  case (Obj kvs)
  have "map (map_prod id u_cloneDeep) kvs = map id kvs"
  proof (rule map_cong[OF refl])
    fix kv assume m: "kv \<in> set kvs"
    obtain k v where kv: "kv = (k, v)" by (cases kv)
    from m kv Obj.IH have "u_cloneDeep v = v" by fastforce
    then show "map_prod id u_cloneDeep kv = id kv" by (simp add: kv)
  qed
  then show ?case by simp
qed simp_all

lemma leaves_deepSet:
  assumes "is_leaf c"
  shows "list_all (\<lambda>l. l = c) (leaves (deepSet t c))"
proof (induction t)
  case (Arr xs)
  then show ?case by (auto simp: list_all_iff)
next
  case (Obj kvs)
  then show ?case by (fastforce simp: list_all_iff)
qed (use assms in \<open>cases c; simp\<close>)+

lemma same_shape_deepSet:
  assumes "is_leaf c"
  shows "same_shape t (deepSet t c)"
proof (induction t)
  case (Arr xs)
  then show ?case by (simp add: list_all2_conv_all_nth)
next
  case (Obj kvs)
  have "list_all2 (\<lambda>kv kw. fst kv = fst kw \<and> same_shape (snd kv) (snd kw)) kvs
          (map (map_prod id (\<lambda>x. deepSet x c)) kvs)"
    unfolding list_all2_conv_all_nth
  proof (intro conjI allI impI)
    show "length kvs = length (map (map_prod id (\<lambda>x. deepSet x c)) kvs)" by simp
  next
    fix i assume i: "i < length kvs"
    then have m: "kvs ! i \<in> set kvs" by simp
    show "fst (kvs ! i) = fst (map (map_prod id (\<lambda>x. deepSet x c)) kvs ! i)"
      using i by (cases "kvs ! i") simp
    show "same_shape (snd (kvs ! i)) (snd (map (map_prod id (\<lambda>x. deepSet x c)) kvs ! i))"
      using i m Obj.IH by (cases "kvs ! i") (auto simp: snds.simps)
  qed
  then show ?case by simp
qed (use assms in \<open>cases c; simp\<close>)+

lemma run_validators_fails:
  "(\<exists>e. run_validators vs d = Inl e) \<longleftrightarrow> (\<exists>v\<in>set vs. \<exists>e. v d = Inl e)"
  by (induction vs) (auto split: sum.splits)

lemma run_validators_error:
  "run_validators vs d = Inl e \<Longrightarrow> \<exists>v\<in>set vs. v d = Inl e"
  by (induction vs) (auto split: sum.splits)

section \<open>The loop over the form controls\<close>

lemma push_control_length: "length (push_control br path v els) = length els"
  by (induction els) auto

lemma push_control_none:
  "list_all (\<lambda>c. \<not> targets br path c) els \<Longrightarrow> push_control br path v els = els"
  by (induction els) (auto simp: targets_def)

lemma push_control_first:
  "i < length els \<Longrightarrow> targets br path (els ! i)
     \<Longrightarrow> list_all (\<lambda>c. \<not> targets br path c) (take i els)
     \<Longrightarrow> push_control br path v els = els[i := setControlValue br (els ! i) v]"
proof (induction els arbitrary: i)
  case Nil
  then show ?case by simp
next
  case (Cons c els)
  show ?case
  proof (cases i)
    case 0
    with Cons.prems show ?thesis by (auto simp: targets_def)
  next
    case (Suc j)
    with Cons.prems have "\<not> targets br path c" "j < length els" "targets br path (els ! j)"
      "list_all (\<lambda>c. \<not> targets br path c) (take j els)" by simp_all
    with Cons.IH[of j] Suc show ?thesis by (auto simp: targets_def)
  qed
qed

section \<open>The helpers, in closed form\<close>

lemma setFields_state:
  "setFields br values s =
     s\<lparr>data := u_cloneDeep values, trace := trace s @ [Data_written (u_cloneDeep values)],
       formNode := map_option (\<lambda>els. setForm br els values) (formNode s)\<rparr>"
  by (cases "formNode s") (simp_all add: setFields_def data_set_def Let_def)

lemma setField_malformed:
  "parse path = Inl e \<Longrightarrow> setField br path v touch s = (Inl e, s)"
  by (simp add: setField_def u_set_def)

lemma setField_state:
  assumes "parse path = Inr sgs"
  shows "setField br path v touch s =
     (Inr (),
      s\<lparr>data := set_segments sgs (data s) v,
        touched := (if touch = Some False then touched s
                    else set_segments sgs (touched s) (Bool True)),
        trace := trace s @ Data_written (set_segments sgs (data s) v) #
                 (if touch = Some False then []
                  else [Touched_written (set_segments sgs (touched s) (Bool True))]),
        formNode := map_option (push_control br path v) (formNode s)\<rparr>)"
proof (cases "formNode s")
  case None
  then show ?thesis
    using assms
    by (cases touch) (auto simp: setField_def setTouched_def u_set_def data_set_def touched_set_def)
next
  case (Some els)
  then show ?thesis
    using assms
    by (cases touch) (auto simp: setField_def setTouched_def u_set_def data_set_def touched_set_def)
qed

section \<open>Reading through references\<close>

lemma read_tree_append: "below (length h) r \<Longrightarrow> read_tree (h @ ext) r = read_tree h r"
  by (cases r) (simp_all add: nth_append)

lemma lookup_field_map:
  "lookup_field (f u) k (map (map_prod id f) kvs) = f (lookup_field u k kvs)"
  by (induction kvs) auto

lemma update_field_map:
  "map (map_prod id f) (update_field k x kvs) = update_field k (f x) (map (map_prod id f) kvs)"
  by (induction kvs) auto

lemma lookup_elem_map: "lookup_elem (f u) i (map f xs) = f (lookup_elem u i xs)"
  by (simp add: lookup_elem_def)

lemma update_elem_map: "map f (update_elem u i x xs) = update_elem (f u) i (f x) (map f xs)"
  by (simp add: update_elem_def map_update)

lemma index_fields_map:
  "map (map_prod id f) (index_fields n xs) = index_fields n (map f xs)"
  by (induction xs arbitrary: n) auto

lemma get_prop_map:
  "get_prop (f u) sg (map_option (map_container f) c) = f (get_prop u sg c)"
proof (cases c)
  case None
  then show ?thesis by simp
next
  case (Some ct)
  then show ?thesis
    by (cases sg; cases ct) (simp_all add: lookup_field_map lookup_elem_map)
qed

lemma set_prop_map:
  "map_container f (set_prop u sg x c) = set_prop (f u) sg (f x) (map_option (map_container f) c)"
proof (cases c)
  case None
  then show ?thesis by (cases sg) (simp_all add: update_elem_map)
next
  case (Some ct)
  then show ?thesis
    by (cases sg; cases ct) (simp_all add: update_field_map update_elem_map index_fields_map)
qed

lemma extendsE: "extends h h' \<Longrightarrow> \<exists>ext. h' = h @ ext"
  by (metis append_take_drop_id extends_def)

lemma extends_refl: "extends h h"
  by (simp add: extends_def)

lemma extends_append: "extends h (h @ ext)"
  by (simp add: extends_def)

lemma extends_trans: "extends h h1 \<Longrightarrow> extends h1 h2 \<Longrightarrow> extends h h2"
  by (metis append.assoc extendsE extends_append)

lemma extends_length: "extends h h' \<Longrightarrow> length h \<le> length h'"
  by (metis extendsE length_append le_add1)

lemma read_tree_extends:
  "extends h h' \<Longrightarrow> below (length h) r \<Longrightarrow> read_tree h' r = read_tree h r"
  using extendsE read_tree_append by blast

lemma below_mono: "below m r \<Longrightarrow> m \<le> n \<Longrightarrow> below n r"
  by (cases r) simp_all

text \<open>In a well-formed heap a cell reads the same in every heap that extends it.\<close>

lemma read_cell:
  assumes "wf_heap h" "a < length h" "extends h h'"
  shows "map_container (read_tree h') (h ! a) = map_container (read_tree (take a h)) (h ! a)"
proof (rule container.map_cong[OF refl])
  fix r assume "r \<in> set_container (h ! a)"
  with assms(1,2) have b: "below a r" by (simp add: wf_heap_def)
  from assms(3) obtain ext where "h' = h @ ext" using extendsE by blast
  then have "h' = take a h @ (drop a h @ ext)" by simp
  moreover have "below (length (take a h)) r" using b assms(2) by simp
  ultimately show "read_tree h' r = read_tree (take a h) r"
    using read_tree_append by metis
qed

lemma read_container:
  assumes "wf_heap h" "extends h h'"
  shows "map_option (map_container (read_tree h')) (hcontainer h r) = container_of (read_tree h r)"
proof (cases r)
  case (HRef a)
  show ?thesis
  proof (cases "a < length h")
    case True
    then show ?thesis
      using HRef read_cell[OF assms(1) True assms(2)]
      by (simp add: container_of_jsval_of)
  next
    case False
    then show ?thesis using HRef by simp
  qed
qed simp_all

lemma read_hchild:
  assumes "wf_heap h"
  shows "read_tree h (hchild h sg r) = child sg (read_tree h r)"
proof -
  have "read_tree h (get_prop HUndefined sg (hcontainer h r))
        = get_prop (read_tree h HUndefined) sg (map_option (map_container (read_tree h)) (hcontainer h r))"
    by (rule get_prop_map[symmetric])
  then show ?thesis
    using read_container[OF assms extends_refl, of r] by (simp add: hchild_def child_def)
qed

lemma snds_eq: "Basic_BNFs.snds p = {snd p}"
  by (cases p) (simp add: prod_set_simps)

lemma set_container_Fields: "set_container (Fields kvs) = snd ` set kvs"
  by (auto simp: snds_eq)

lemma snd_set_update_field: "snd ` set (update_field k x kvs) \<subseteq> insert x (snd ` set kvs)"
proof (induction kvs)
  case Nil
  show ?case by simp
next
  case (Cons kv kvs)
  obtain k' v' where kv: "kv = (k', v')" by (cases kv)
  show ?case
  proof (cases "k = k'")
    case True
    then show ?thesis using kv by auto
  next
    case False
    then show ?thesis using kv Cons by auto
  qed
qed

lemma set_update_elem: "set (update_elem u i x xs) \<subseteq> insert x (insert u (set xs))"
proof (cases "i < length xs")
  case True
  then show ?thesis using set_update_subset_insert[of xs i x] by (auto simp: update_elem_def)
next
  case False
  then show ?thesis by (auto simp: update_elem_def)
qed

lemma snd_set_index_fields: "snd ` set (index_fields n xs) = set xs"
  by (induction xs arbitrary: n) auto

lemma set_container_update_field:
  "set_container (Fields (update_field k x kvs)) \<subseteq> insert x (set_container (Fields kvs))"
  by (simp only: set_container_Fields snd_set_update_field)

lemma set_container_index_fields: "set_container (Fields (index_fields n xs)) = set xs"
  by (simp only: set_container_Fields snd_set_index_fields)

lemma set_container_update_elem:
  "set_container (Elems (update_elem u i x xs)) \<subseteq> insert x (insert u (set_container (Elems xs)))"
  using set_update_elem[of u i x xs] by simp

lemma set_container_set_prop:
  "set_container (set_prop u sg x c)
     \<subseteq> insert x (insert u (case c of None \<Rightarrow> {} | Some ct \<Rightarrow> set_container ct))"
proof (cases c)
  case None
  show ?thesis
  proof (cases sg)
    case (Key k)
    with None show ?thesis by simp
  next
    case (Index i)
    have "set_container (Elems (update_elem u i x [])) \<subseteq> insert x (insert u {})"
      using set_container_update_elem[of u i x "[]"] by simp
    with None Index show ?thesis by simp
  qed
next
  case (Some ct)
  show ?thesis
  proof (cases ct)
    case (Elems xs)
    show ?thesis
    proof (cases sg)
      case (Key k)
      show ?thesis
      proof (cases "is_index k")
        case True
        have "set_prop u sg x c = Elems (update_elem u (nat_of_digits k) x xs)"
          using Some Elems Key True by simp
        then show ?thesis
          using set_container_update_elem[of u "nat_of_digits k" x xs] Some Elems by auto
      next
        case False
        have "set_prop u sg x c = Fields (update_field k x (index_fields 0 xs))"
          using Some Elems Key False by simp
        moreover have "set_container (Fields (update_field k x (index_fields 0 xs)))
            \<subseteq> insert x (set xs)"
          using set_container_update_field[of k x "index_fields 0 xs"]
          by (simp only: set_container_index_fields)
        ultimately show ?thesis using Some Elems by auto
      qed
    next
      case (Index i)
      have "set_prop u sg x c = Elems (update_elem u i x xs)"
        using Some Elems Index by simp
      then show ?thesis
        using set_container_update_elem[of u i x xs] Some Elems by auto
    qed
  next
    case (Fields kvs)
    obtain k where "set_prop u sg x c = Fields (update_field k x kvs)"
      using Some Fields by (cases sg) simp_all
    then show ?thesis
      using set_container_update_field[of k x kvs] Some Fields by auto
  qed
qed

lemma wf_heap_snoc:
  assumes "wf_heap h" "\<forall>r\<in>set_container c. below (length h) r"
  shows "wf_heap (h @ [c])"
  unfolding wf_heap_def
proof (intro allI impI)
  fix a assume "a < length (h @ [c])"
  then consider "a < length h" | "a = length h" by fastforce
  then show "\<forall>r\<in>set_container ((h @ [c]) ! a). below a r"
  proof cases
    case 1
    then show ?thesis using assms(1) by (simp add: wf_heap_def nth_append)
  next
    case 2
    then show ?thesis using assms(2) by simp
  qed
qed

lemma hcontainer_below:
  assumes "wf_heap h" "hcontainer h r = Some ct" "x \<in> set_container ct"
  shows "below (length h) x"
proof (cases r)
  case (HRef a)
  with assms(2) have a: "a < length h" "ct = h ! a" by (auto split: if_splits)
  with assms(1,3) have "below a x" by (simp add: wf_heap_def)
  then show ?thesis using a(1) below_mono by (meson less_imp_le_nat)
qed (use assms(2) in simp_all)

lemma read_tree_snoc: "read_tree (h @ [c]) (HRef (length h)) = jsval_of (map_container (read_tree h) c)"
  by simp

lemma hset_props:
  assumes "wf_heap h" "below (length h) v"
  shows "case hset sgs r v h of
           (r', h') \<Rightarrow> extends h h' \<and> wf_heap h' \<and> below (length h') r' \<and>
             read_tree h' r' = set_segments sgs (read_tree h r) (read_tree h v)"
proof (induction sgs arbitrary: r)
  case Nil
  then show ?case using assms by (simp add: extends_refl)
next
  case (Cons sg sgs)
  obtain c h1 where c: "hset sgs (hchild h sg r) v h = (c, h1)" by (cases "hset sgs (hchild h sg r) v h")
  from Cons[of "hchild h sg r"] c
  have ih: "extends h h1" "wf_heap h1" "below (length h1) c"
    "read_tree h1 c = set_segments sgs (read_tree h (hchild h sg r)) (read_tree h v)"
    by simp_all
  let ?cell = "set_prop HUndefined sg c (hcontainer h r)"
  have res: "hset (sg # sgs) r v h = (HRef (length h1), h1 @ [?cell])"
    using c by simp
  have e: "extends h (h1 @ [?cell])"
    using ih(1) extends_append extends_trans by blast
  have cell_below: "\<forall>x\<in>set_container ?cell. below (length h1) x"
  proof
    fix x assume "x \<in> set_container ?cell"
    then have "x = c \<or> x = HUndefined \<or>
        (\<exists>ct. hcontainer h r = Some ct \<and> x \<in> set_container ct)"
      using set_container_set_prop[of HUndefined sg c "hcontainer h r"]
      by (auto split: option.splits)
    then consider "x = c" | "x = HUndefined"
      | ct where "hcontainer h r = Some ct" "x \<in> set_container ct"
      by blast
    then show "below (length h1) x"
    proof cases
      case 1
      then show ?thesis using ih(3) by simp
    next
      case 2
      then show ?thesis by simp
    next
      case 3
      then have "below (length h) x" by (rule hcontainer_below[OF assms(1)])
      then show ?thesis using extends_length[OF ih(1)] by (rule below_mono)
    qed
  qed
  have w: "wf_heap (h1 @ [?cell])"
    using wf_heap_snoc[OF ih(2) cell_below] .
  have "read_tree (h1 @ [?cell]) (HRef (length h1))
        = jsval_of (map_container (read_tree h1) ?cell)"
    by (rule read_tree_snoc)
  also have "map_container (read_tree h1) ?cell
        = set_prop (read_tree h1 HUndefined) sg (read_tree h1 c)
            (map_option (map_container (read_tree h1)) (hcontainer h r))"
    by (rule set_prop_map)
  also have "map_option (map_container (read_tree h1)) (hcontainer h r)
        = container_of (read_tree h r)"
    by (rule read_container[OF assms(1) ih(1)])
  finally have rd: "read_tree (h1 @ [?cell]) (HRef (length h1))
        = set_segments (sg # sgs) (read_tree h r) (read_tree h v)"
    using ih(4) read_hchild[OF assms(1), of sg r] by simp
  show ?case
    using res e w rd by simp
qed

lemma build_props:
  "(case build x h of
      (r, h') \<Rightarrow> extends h h' \<and> (wf_heap h \<longrightarrow> wf_heap h') \<and> below (length h') r \<and>
        read_tree h' r = x)"
  "(case build_list xs h of
      (rs, h') \<Rightarrow> extends h h' \<and> (wf_heap h \<longrightarrow> wf_heap h') \<and>
        (\<forall>r\<in>set rs. below (length h') r) \<and> map (read_tree h') rs = xs)"
  "(case build_fields kvs h of
      (krs, h') \<Rightarrow> extends h h' \<and> (wf_heap h \<longrightarrow> wf_heap h') \<and>
        (\<forall>r\<in>snd ` set krs. below (length h') r) \<and>
        map (map_prod id (read_tree h')) krs = kvs)"
proof (induction x h and xs h and kvs h rule: build_build_list_build_fields.induct)
  case (6 xs h)
  obtain rs h1 where b: "build_list xs h = (rs, h1)" by (cases "build_list xs h")
  with 6 have ih: "extends h h1" "wf_heap h \<longrightarrow> wf_heap h1"
    "\<forall>r\<in>set rs. below (length h1) r" "map (read_tree h1) rs = xs"
    by simp_all
  have "extends h (h1 @ [Elems rs])"
    using ih(1) extends_append extends_trans by blast
  moreover have "wf_heap h \<longrightarrow> wf_heap (h1 @ [Elems rs])"
    using ih(2,3) wf_heap_snoc[of h1 "Elems rs"] by simp
  moreover have "read_tree (h1 @ [Elems rs]) (HRef (length h1)) = Arr xs"
    using ih(4) by simp
  ultimately show ?case using b by simp
next
  case (7 kvs h)
  obtain krs h1 where b: "build_fields kvs h = (krs, h1)" by (cases "build_fields kvs h")
  from 7[unfolded b prod.case] have ih: "extends h h1" "wf_heap h \<longrightarrow> wf_heap h1"
    "\<forall>r\<in>snd ` set krs. below (length h1) r" "map (map_prod id (read_tree h1)) krs = kvs"
    by blast+
  have "extends h (h1 @ [Fields krs])"
    using ih(1) extends_append extends_trans by blast
  moreover have "wf_heap h \<longrightarrow> wf_heap (h1 @ [Fields krs])"
    using ih(2,3) wf_heap_snoc[of h1 "Fields krs"] by (simp only: set_container_Fields) blast
  moreover have "read_tree (h1 @ [Fields krs]) (HRef (length h1)) = Obj kvs"
    using ih(4) by simp
  ultimately show ?case using b by simp
next
  case (9 x xs h)
  obtain r h1 where b1: "build x h = (r, h1)" by (cases "build x h")
  obtain rs h2 where b2: "build_list xs h1 = (rs, h2)" by (cases "build_list xs h1")
  from 9(1) b1 have i1: "extends h h1" "wf_heap h \<longrightarrow> wf_heap h1" "below (length h1) r"
    "read_tree h1 r = x" by simp_all
  from 9(2)[OF b1[symmetric]] b2 have i2: "extends h1 h2" "wf_heap h1 \<longrightarrow> wf_heap h2"
    "\<forall>r\<in>set rs. below (length h2) r" "map (read_tree h2) rs = xs" by simp_all
  have "extends h h2" using i1(1) i2(1) extends_trans by blast
  moreover have "below (length h2) r"
    using i1(3) extends_length[OF i2(1)] by (rule below_mono)
  moreover have "read_tree h2 r = x"
    using read_tree_extends[OF i2(1) i1(3)] i1(4) by simp
  ultimately show ?case using b1 b2 i1(2) i2(2,3,4) by simp
next
  case (11 k x kvs h)
  obtain r h1 where b1: "build x h = (r, h1)" by (cases "build x h")
  obtain krs h2 where b2: "build_fields kvs h1 = (krs, h2)" by (cases "build_fields kvs h1")
  from 11(1) b1 have i1: "extends h h1" "wf_heap h \<longrightarrow> wf_heap h1" "below (length h1) r"
    "read_tree h1 r = x" by simp_all
  from 11(2)[OF b1[symmetric], unfolded b2 prod.case]
  have i2: "extends h1 h2" "wf_heap h1 \<longrightarrow> wf_heap h2"
    "\<forall>r\<in>snd ` set krs. below (length h2) r" "map (map_prod id (read_tree h2)) krs = kvs"
    by blast+
  have "extends h h2" using i1(1) i2(1) extends_trans by blast
  moreover have "below (length h2) r"
    using i1(3) extends_length[OF i2(1)] by (rule below_mono)
  moreover have "read_tree h2 r = x"
    using read_tree_extends[OF i2(1) i1(3)] i1(4) by simp
  ultimately show ?case using b1 b2 i1(2) i2(2,3,4) by (simp add: id_def)
qed (simp_all add: extends_refl)

lemma h_cloneDeep_props:
  assumes "wf_heap h"
  shows "case h_cloneDeep h r of
           (r', h') \<Rightarrow> extends h h' \<and> wf_heap h' \<and> below (length h') r' \<and>
             read_tree h' r' = read_tree h r"
  using build_props(1)[where x = "read_tree h r" and h = h] assms
  by (auto simp: h_cloneDeep_def)

text \<open>Every tree is the tree of a reference in some well-formed heap.\<close>

lemma build_empty:
  "case build x [] of (r, h) \<Rightarrow> wf_heap h \<and> below (length h) r \<and> read_tree h r = x"
  using build_props(1)[where x = x and h = "[]"] by (auto simp: wf_heap_def)

section \<open>The helpers on references\<close>

lemma setField_r_malformed:
  "parse path = Inl e \<Longrightarrow> setField_r br path v touch s = (Inl e, s)"
  by (simp add: setField_r_def h_set_def)

lemma setField_r_state:
  assumes "parse path = Inr sgs" "hset sgs (data_ref s) v (heap s) = (d, h)"
  shows "setField_r br path v touch s =
     (Inr (),
      s\<lparr>heap := h, data_ref := d,
        touched_tree := (if touch = Some False then touched_tree s
                         else set_segments sgs (touched_tree s) (Bool True)),
        events := events s @ Data_written (read_tree h d) #
                  (if touch = Some False then []
                   else [Touched_written (set_segments sgs (touched_tree s) (Bool True))]),
        form := map_option (push_control br path (read_tree h v)) (form s)\<rparr>)"
proof (cases "form s")
  case None
  then show ?thesis
    using assms
    by (cases touch) (auto simp: setField_r_def setTouched_r_def h_set_def u_set_def
        data_set_r_def touched_set_r_def)
next
  case (Some els)
  then show ?thesis
    using assms
    by (cases touch) (auto simp: setField_r_def setTouched_r_def h_set_def u_set_def
        data_set_r_def touched_set_r_def)
qed

lemma setFields_r_state:
  assumes "h_cloneDeep (heap s) vals = (d, h)"
  shows "setFields_r br vals s =
     s\<lparr>heap := h, data_ref := d, events := events s @ [Data_written (read_tree h d)],
       form := map_option (\<lambda>els. setForm br els (read_tree h vals)) (form s)\<rparr>"
  using assms
  by (cases "form s") (simp_all add: setFields_r_def data_set_r_def Let_def)

text \<open>The helpers on references do to the trees what the helpers on trees do.\<close>

lemma setField_r_view:
  assumes "wf_heap (heap s)" "below (length (heap s)) v"
  shows "fst (setField_r br path v touch s)
           = fst (setField br path (read_tree (heap s) v) touch (view s)) \<and>
         view (snd (setField_r br path v touch s))
           = snd (setField br path (read_tree (heap s) v) touch (view s)) \<and>
         extends (heap s) (heap (snd (setField_r br path v touch s))) \<and>
         wf_heap (heap (snd (setField_r br path v touch s))) \<and>
         (below (length (heap s)) (data_ref s)
            \<longrightarrow> below (length (heap (snd (setField_r br path v touch s))))
                  (data_ref (snd (setField_r br path v touch s))))"
proof (cases "parse path")
  case (Inl e)
  then show ?thesis
    using assms(1) by (simp add: setField_r_malformed setField_malformed extends_refl)
next
  case (Inr sgs)
  obtain d h where dh: "hset sgs (data_ref s) v (heap s) = (d, h)"
    by (cases "hset sgs (data_ref s) v (heap s)")
  from hset_props[OF assms, of sgs "data_ref s"] dh
  have p: "extends (heap s) h" "wf_heap h" "below (length h) d"
    "read_tree h d = set_segments sgs (read_tree (heap s) (data_ref s)) (read_tree (heap s) v)"
    by simp_all
  have rv: "read_tree h v = read_tree (heap s) v"
    using read_tree_extends[OF p(1) assms(2)] .
  note r = setField_r_state[OF Inr dh, of br touch]
  note a = setField_state[OF Inr, of br "read_tree (heap s) v" touch "view s"]
  show ?thesis
    unfolding r a by (simp add: view_def p rv)
qed

lemma setFields_r_view:
  assumes "wf_heap (heap s)"
  shows "view (setFields_r br vals s) = setFields br (read_tree (heap s) vals) (view s) \<and>
         extends (heap s) (heap (setFields_r br vals s)) \<and>
         wf_heap (heap (setFields_r br vals s)) \<and>
         below (length (heap (setFields_r br vals s))) (data_ref (setFields_r br vals s))"
proof -
  obtain d h where dh: "h_cloneDeep (heap s) vals = (d, h)"
    by (cases "h_cloneDeep (heap s) vals")
  from h_cloneDeep_props[OF assms, of vals] dh
  have p: "extends (heap s) h" "wf_heap h" "below (length h) d"
    "read_tree h d = read_tree (heap s) vals"
    by simp_all
  have rv: "read_tree h vals = read_tree (heap s) vals"
  proof (cases "below (length (heap s)) vals")
    case True
    then show ?thesis using read_tree_extends[OF p(1)] by simp
  next
    case False
    then obtain a where a: "vals = HRef a" "\<not> a < length (heap s)"
      by (cases vals) simp_all
    then have "h = heap s" using dh by (simp add: h_cloneDeep_def)
    then show ?thesis by simp
  qed
  note r = setFields_r_state[OF dh, of br]
  show ?thesis
    by (simp add: r setFields_state view_def p rv u_cloneDeep_id)
qed

lemma validate_start_r_state:
  "validate_start_r s =
     (data_ref s,
      s\<lparr>touched_tree := deepSet (touched_tree s) (Bool True),
        events := events s @ [Touched_written (deepSet (touched_tree s) (Bool True)),
                              Validation_started (read_tree (heap s) (data_ref s))]\<rparr>)"
  by (simp add: validate_start_r_def touched_set_r_def Let_def)

lemma validate_finish_r_result:
  "fst (validate_finish_r cfg r s) = executeValidation (read_tree (heap s) r) (cfg_validate cfg)"
  "errors_tree (snd (validate_finish_r cfg r s)) =
     (case executeValidation (read_tree (heap s) r) (cfg_validate cfg) of
        Inl e \<Rightarrow> errors_tree s
      | Inr x \<Rightarrow> (if truthy x then x else Obj []))"
  by (simp_all add: validate_finish_r_def errors_set_r_def split: sum.splits)

lemma validate_result:
  "fst (validate cfg s) = executeValidation (data s) (cfg_validate cfg)"
  "errors (snd (validate cfg s)) =
     (case executeValidation (data s) (cfg_validate cfg) of
        Inl e \<Rightarrow> errors s
      | Inr x \<Rightarrow> (if truthy x then x else Obj []))"
  by (simp_all add: validate_def validate_start_def validate_finish_def errors_set_def
      touched_set_def Let_def split: sum.splits)

section \<open>The claims on set and get\<close>

text \<open>
  C8. For every root, every valid path \<open>p\<close> and every value \<open>v\<close>: \<open>set\<close> succeeds, and
  reading \<open>p\<close> from the root it returns yields exactly \<open>v\<close>. Only the target location is
  replaced, whatever the root: a path that parts from \<open>p\<close> at some segment, naming
  another property there, reads in the new root what it read in the old one.
\<close>

theorem set_get_round_trip:
  assumes "parse p = Inr sgs"
  shows "\<exists>root'. u_set root p v = Inr root' \<and> u_get root' p = Inr v \<and>
           (\<forall>c a b rest q. sgs = c @ a # rest \<and> seg_key a \<noteq> seg_key b
              \<longrightarrow> resolve (c @ b # q) root' = resolve (c @ b # q) root)"
proof -
  have "u_set root p v = Inr (set_segments sgs root v)"
    using assms by (simp add: u_set_def)
  moreover have "u_get (set_segments sgs root v) p = Inr v"
    using assms by (simp add: u_get_def resolve_set_segments)
  moreover have "\<forall>c a b rest q. sgs = c @ a # rest \<and> seg_key a \<noteq> seg_key b
      \<longrightarrow> resolve (c @ b # q) (set_segments sgs root v) = resolve (c @ b # q) root"
    using resolve_set_segments_other by blast
  ultimately show ?thesis by blast
qed

theorem set_get_round_trip_witness:
  "parse ''a.b'' = Inr [Key ''a'', Key ''b''] \<and>
   u_set (Obj [(''a'', Arr [Num 1, Num 2])]) ''a.b'' (Str ''v'')
     = Inr (Obj [(''a'', Obj [(''0'', Num 1), (''1'', Num 2), (''b'', Str ''v'')])]) \<and>
   u_get (Obj [(''a'', Obj [(''0'', Num 1), (''1'', Num 2), (''b'', Str ''v'')])]) ''a.b''
     = Inr (Str ''v'') \<and>
   resolve [Key ''a'', Index 0] (Obj [(''a'', Arr [Num 1, Num 2])]) = Num 1 \<and>
   resolve [Key ''a'', Index 0]
     (Obj [(''a'', Obj [(''0'', Num 1), (''1'', Num 2), (''b'', Str ''v'')])]) = Num 1"
proof -
  let ?root = "Obj [(''a'', Arr [Num 1, Num 2])]"
  let ?sgs = "[Key ''a'', Key ''b'']"
  have h: "parse ''a.b'' = Inr ?sgs"
    by (simp add: parse_def cons_segment_def)
  have d: "string_of_nat 0 = ''0''" "string_of_nat 1 = ''1''" "string_of_nat (Suc 0) = ''1''"
    by code_simp+
  have ni: "\<not> is_index ''b''"
    by code_simp
  have s: "u_set ?root ''a.b'' (Str ''v'')
     = Inr (Obj [(''a'', Obj [(''0'', Num 1), (''1'', Num 2), (''b'', Str ''v'')])])"
    by (simp add: u_set_def h child_def ni d)
  from set_get_round_trip[OF h, of ?root "Str ''v''"]
  obtain root' where r: "u_set ?root ''a.b'' (Str ''v'') = Inr root'"
    "u_get root' ''a.b'' = Inr (Str ''v'')"
    "\<forall>c a b rest q. ?sgs = c @ a # rest \<and> seg_key a \<noteq> seg_key b
       \<longrightarrow> resolve (c @ b # q) root' = resolve (c @ b # q) ?root"
    by blast
  from r(1) s have e: "root' = Obj [(''a'', Obj [(''0'', Num 1), (''1'', Num 2), (''b'', Str ''v'')])]"
    by simp
  have "resolve ([Key ''a''] @ Index 0 # []) root' = resolve ([Key ''a''] @ Index 0 # []) ?root"
    using r(3)[rule_format, of "[Key ''a'']" "Key ''b''" "[]" "Index 0" "[]"]
    by (simp add: d)
  moreover have "resolve [Key ''a'', Index 0] ?root = Num 1"
    by (simp add: lookup_elem_def)
  ultimately have "resolve [Key ''a'', Index 0] root' = Num 1" by simp
  with h s r(2) e \<open>resolve [Key ''a'', Index 0] ?root = Num 1\<close> show ?thesis by simp
qed

section \<open>The claims on validate\<close>

text \<open>
  C1, as stated, fails on two counts. A call whose validator fails returns the failure
  and never writes the Error Tree, so that not every call writes it once. A call whose
  validators answer the empty object publishes the empty Error Tree and returns that
  empty object, not nothing. Both hold of the body of \<^verbatim>\<open>validate\<close> after its \<^verbatim>\<open>await\<close>
  alone, whatever the executor.
\<close>

theorem validate_claim_counterexample:
  "fst (validate rejecting_config example_state) = Inl (ValidatorFailure ''schema unavailable'') \<and>
   trace (snd (validate rejecting_config example_state)) =
     [Touched_written (Obj [(''name'', Bool True)]),
      Validation_started (Obj [(''email'', Str []), (''name'', Str ''Ada'')])] \<and>
   fst (validate_finish (Inl (ValidatorFailure ''schema unavailable'')) example_state)
     = Inl (ValidatorFailure ''schema unavailable'') \<and>
   trace (snd (validate_finish (Inl (ValidatorFailure ''schema unavailable'')) example_state)) = [] \<and>
   errors (snd (validate accepting_config example_state)) = Obj [] \<and>
   fst (validate accepting_config example_state) = Inr (Obj []) \<and>
   fst (validate accepting_config example_state) \<noteq> Inr Undefined \<and>
   errors (snd (validate_finish (Inr (Obj [])) example_state)) = Obj [] \<and>
   fst (validate_finish (Inr (Obj [])) example_state) = Inr (Obj [])"
  by (simp add: validate_def validate_start_def validate_finish_def executeValidation_def
      rejecting_config_def rejecting_def required_email_def accepting_config_def accepting_def
      example_state_def touched_set_def errors_set_def Let_def)

text \<open>
  C1, amended. Every call of \<^verbatim>\<open>validate\<close> first writes the Touched Tree to the tree
  \<^verbatim>\<open>deepSet\<close> gives with the constant \<^verbatim>\<open>true\<close> (the same shape, every leaf true), then
  runs the validators on the Value Tree it read at entry, and returns what they answer.
  When they complete with a result, the Error Tree is then written once, wholesale: to
  the result, or to the empty object when the result is \<^verbatim>\<open>undefined\<close> or otherwise falsy;
  what is returned is the result itself, an empty Error Tree included, and nothing only
  when the result is \<^verbatim>\<open>undefined\<close>. When a validator fails, the failure is returned and
  the Error Tree is not written. The trace gives the order of the writes; the Value Tree
  is not written.
\<close>

theorem validate_outcome:
  "fst (validate cfg s) = executeValidation (data s) (cfg_validate cfg) \<and>
   touched (snd (validate cfg s)) = deepSet (touched s) (Bool True) \<and>
   list_all (\<lambda>l. l = Bool True) (leaves (touched (snd (validate cfg s)))) \<and>
   same_shape (touched s) (touched (snd (validate cfg s))) \<and>
   data (snd (validate cfg s)) = data s \<and>
   (case executeValidation (data s) (cfg_validate cfg) of
      Inl e \<Rightarrow>
        errors (snd (validate cfg s)) = errors s \<and>
        trace (snd (validate cfg s)) =
          trace s @ [Touched_written (deepSet (touched s) (Bool True)),
                     Validation_started (data s)]
    | Inr r \<Rightarrow>
        errors (snd (validate cfg s)) =
          (case r of
             Undefined \<Rightarrow> Obj []
           | Null \<Rightarrow> Obj []
           | Bool b \<Rightarrow> (if b then Bool True else Obj [])
           | Num n \<Rightarrow> (if n = 0 then Obj [] else Num n)
           | Str t \<Rightarrow> (if t = [] then Obj [] else Str t)
           | Arr xs \<Rightarrow> Arr xs
           | Obj kvs \<Rightarrow> Obj kvs) \<and>
        trace (snd (validate cfg s)) =
          trace s @ [Touched_written (deepSet (touched s) (Bool True)),
                     Validation_started (data s),
                     Errors_written (errors (snd (validate cfg s)))])"
proof -
  have l: "list_all (\<lambda>l. l = Bool True) (leaves (deepSet (touched s) (Bool True)))"
    by (rule leaves_deepSet) simp
  have sh: "same_shape (touched s) (deepSet (touched s) (Bool True))"
    by (rule same_shape_deepSet) simp
  have pub: "(if truthy r then r else Obj []) =
      (case r of
         Undefined \<Rightarrow> Obj []
       | Null \<Rightarrow> Obj []
       | Bool b \<Rightarrow> (if b then Bool True else Obj [])
       | Num n \<Rightarrow> (if n = 0 then Obj [] else Num n)
       | Str t \<Rightarrow> (if t = [] then Obj [] else Str t)
       | Arr xs \<Rightarrow> Arr xs
       | Obj kvs \<Rightarrow> Obj kvs)" for r
    by (cases r) simp_all
  show ?thesis
  proof (cases "executeValidation (data s) (cfg_validate cfg)")
    case (Inl e)
    then show ?thesis
      using l sh
      by (simp add: validate_def validate_start_def validate_finish_def touched_set_def Let_def)
  next
    case (Inr r)
    then show ?thesis
      using l sh pub[of r]
      by (simp add: validate_def validate_start_def validate_finish_def touched_set_def
          errors_set_def Let_def)
  qed
qed

theorem validate_outcome_witness:
  "fst (validate no_validators example_state) = Inr Undefined \<and>
   errors (snd (validate no_validators example_state)) = Obj [] \<and>
   touched (snd (validate no_validators example_state)) = Obj [(''name'', Bool True)] \<and>
   trace (snd (validate no_validators example_state)) =
     [Touched_written (Obj [(''name'', Bool True)]),
      Validation_started (Obj [(''email'', Str []), (''name'', Str ''Ada'')]),
      Errors_written (Obj [])] \<and>
   fst (validate example_config example_state) = Inr (Obj [(''email'', Str ''required'')]) \<and>
   errors (snd (validate example_config example_state)) = Obj [(''email'', Str ''required'')] \<and>
   trace (snd (validate example_config example_state)) =
     [Touched_written (Obj [(''name'', Bool True)]),
      Validation_started (Obj [(''email'', Str []), (''name'', Str ''Ada'')]),
      Errors_written (Obj [(''email'', Str ''required'')])]"
proof -
  have n: "executeValidation (data example_state) (cfg_validate no_validators) = Inr Undefined"
    by (simp add: executeValidation_def no_validators_def)
  have e: "executeValidation (data example_state) (cfg_validate example_config)
     = Inr (Obj [(''email'', Str ''required'')])"
    by (simp add: executeValidation_def example_state_def example_config_def required_email_def)
  from validate_outcome[of no_validators example_state] n
  have a: "fst (validate no_validators example_state) = Inr Undefined"
    "errors (snd (validate no_validators example_state)) = Obj []"
    "touched (snd (validate no_validators example_state)) = Obj [(''name'', Bool True)]"
    "trace (snd (validate no_validators example_state)) =
     [Touched_written (Obj [(''name'', Bool True)]),
      Validation_started (Obj [(''email'', Str []), (''name'', Str ''Ada'')]),
      Errors_written (Obj [])]"
    by (simp_all add: example_state_def)
  from validate_outcome[of example_config example_state] e
  have b: "fst (validate example_config example_state) = Inr (Obj [(''email'', Str ''required'')])"
    "errors (snd (validate example_config example_state)) = Obj [(''email'', Str ''required'')]"
    "trace (snd (validate example_config example_state)) =
     [Touched_written (Obj [(''name'', Bool True)]),
      Validation_started (Obj [(''email'', Str []), (''name'', Str ''Ada'')]),
      Errors_written (Obj [(''email'', Str ''required'')])]"
    by (simp_all add: example_state_def)
  from a b show ?thesis by blast
qed

text \<open>
  C2. Let the heap be well formed, \<^verbatim>\<open>validate\<close> have run up to its \<^verbatim>\<open>await\<close>, and a
  \<^verbatim>\<open>setField\<close> or a \<^verbatim>\<open>setFields\<close> run before it resumes. The reference the validators
  hold then still reads the Value Tree of the entry of \<^verbatim>\<open>validate\<close>, while the data
  store reads the tree after the mutation; and the call returns and publishes what
  \<^verbatim>\<open>validate\<close> returns and publishes on the trees of its entry with nothing in between.
\<close>

theorem validate_snapshot_isolated:
  assumes "wf_heap (heap s)" "below (length (heap s)) (data_ref s)"
    and "below (length (heap s)) v"
    and "validate_start_r s = (currentData, s1)"
  shows "read_tree (heap (snd (setField_r br path v touch s1))) currentData
           = read_tree (heap s) (data_ref s) \<and>
         (\<forall>sgs. parse path = Inr sgs \<longrightarrow>
            read_tree (heap (snd (setField_r br path v touch s1)))
                      (data_ref (snd (setField_r br path v touch s1)))
              = set_segments sgs (read_tree (heap s) (data_ref s)) (read_tree (heap s) v)) \<and>
         fst (validate_finish_r cfg currentData (snd (setField_r br path v touch s1)))
           = fst (validate cfg (view s)) \<and>
         errors_tree (snd (validate_finish_r cfg currentData (snd (setField_r br path v touch s1))))
           = errors (snd (validate cfg (view s))) \<and>
         read_tree (heap (setFields_r br vals s1)) currentData
           = read_tree (heap s) (data_ref s) \<and>
         read_tree (heap (setFields_r br vals s1)) (data_ref (setFields_r br vals s1))
           = read_tree (heap s) vals \<and>
         fst (validate_finish_r cfg currentData (setFields_r br vals s1))
           = fst (validate cfg (view s)) \<and>
         errors_tree (snd (validate_finish_r cfg currentData (setFields_r br vals s1)))
           = errors (snd (validate cfg (view s)))"
proof -
  from assms(4) have cd: "currentData = data_ref s"
    and s1: "s1 = s\<lparr>touched_tree := deepSet (touched_tree s) (Bool True),
        events := events s @ [Touched_written (deepSet (touched_tree s) (Bool True)),
                              Validation_started (read_tree (heap s) (data_ref s))]\<rparr>"
    by (auto simp: validate_start_r_state)
  have h1: "heap s1 = heap s" "data_ref s1 = data_ref s" "errors_tree s1 = errors_tree s"
    by (simp_all add: s1)
  have w1: "wf_heap (heap s1)" "below (length (heap s1)) v"
    using assms(1,3) by (simp_all add: h1)
  let ?S = "snd (setField_r br path v touch s1)"
  let ?F = "setFields_r br vals s1"
  note fv = setField_r_view[OF w1, of br path touch]
  note sv = setFields_r_view[OF w1(1), of br vals]
  have snapS: "read_tree (heap ?S) currentData = read_tree (heap s) (data_ref s)"
    using read_tree_extends[of "heap s1" "heap ?S" "data_ref s"] fv assms(2)
    by (simp add: cd h1)
  have snapF: "read_tree (heap ?F) currentData = read_tree (heap s) (data_ref s)"
    using read_tree_extends[of "heap s1" "heap ?F" "data_ref s"] sv assms(2)
    by (simp add: cd h1)
  have eS: "errors_tree ?S = errors_tree s"
  proof -
    have "errors (view ?S) = errors (view s1)"
      using fv by (cases "parse path")
        (simp_all add: setField_malformed setField_state)
    then show ?thesis by (simp add: view_def h1)
  qed
  have eF: "errors_tree ?F = errors_tree s"
  proof -
    have "errors (view ?F) = errors (view s1)"
      using sv by (simp add: setFields_state)
    then show ?thesis by (simp add: view_def h1)
  qed
  have dS: "\<forall>sgs. parse path = Inr sgs \<longrightarrow>
      read_tree (heap ?S) (data_ref ?S)
        = set_segments sgs (read_tree (heap s) (data_ref s)) (read_tree (heap s) v)"
  proof (intro allI impI)
    fix sgs assume p: "parse path = Inr sgs"
    have "data (view ?S) = set_segments sgs (data (view s1)) (read_tree (heap s1) v)"
      using fv by (simp add: setField_state[OF p])
    then show "read_tree (heap ?S) (data_ref ?S)
        = set_segments sgs (read_tree (heap s) (data_ref s)) (read_tree (heap s) v)"
      by (simp add: view_def h1)
  qed
  have dF: "read_tree (heap ?F) (data_ref ?F) = read_tree (heap s) vals"
  proof -
    have "data (view ?F) = read_tree (heap s1) vals"
      using sv by (simp add: setFields_state u_cloneDeep_id)
    then show ?thesis by (simp add: view_def h1)
  qed
  have dv: "data (view s) = read_tree (heap s) (data_ref s)" "errors (view s) = errors_tree s"
    by (simp_all add: view_def)
  show ?thesis
    using snapS snapF dS dF
    by (simp add: validate_finish_r_result validate_result dv eS eF split: sum.splits)
qed

theorem validate_snapshot_isolated_witness:
  "wf_heap (heap example_ref_state) \<and>
   below (length (heap example_ref_state)) (data_ref example_ref_state) \<and>
   parse ''tags[0]'' = Inr [Key ''tags'', Index 0] \<and>
   read_tree (heap example_ref_state) (data_ref example_ref_state)
     = Obj [(''email'', Str []), (''tags'', Arr [Str ''a''])] \<and>
   read_tree
     (heap (snd (setField_r example_bridge ''tags[0]'' (HStr ''b'') None
                   (snd (validate_start_r example_ref_state)))))
     (fst (validate_start_r example_ref_state))
     = Obj [(''email'', Str []), (''tags'', Arr [Str ''a''])] \<and>
   read_tree
     (heap (snd (setField_r example_bridge ''tags[0]'' (HStr ''b'') None
                   (snd (validate_start_r example_ref_state)))))
     (data_ref (snd (setField_r example_bridge ''tags[0]'' (HStr ''b'') None
                   (snd (validate_start_r example_ref_state)))))
     = Obj [(''email'', Str []), (''tags'', Arr [Str ''b''])] \<and>
   executeValidation (Obj [(''email'', Str []), (''tags'', Arr [Str ''b''])])
     (cfg_validate tag_config) = Inr Undefined \<and>
   fst (validate_finish_r tag_config (fst (validate_start_r example_ref_state))
          (snd (setField_r example_bridge ''tags[0]'' (HStr ''b'') None
                  (snd (validate_start_r example_ref_state)))))
     = Inr (Obj [(''tags'', Str ''reserved'')]) \<and>
   errors_tree
     (snd (validate_finish_r tag_config (fst (validate_start_r example_ref_state))
             (snd (setField_r example_bridge ''tags[0]'' (HStr ''b'') None
                     (snd (validate_start_r example_ref_state))))))
     = Obj [(''tags'', Str ''reserved'')]"
proof -
  let ?S = "snd (setField_r example_bridge ''tags[0]'' (HStr ''b'') None
                   (snd (validate_start_r example_ref_state)))"
  let ?cd = "fst (validate_start_r example_ref_state)"
  have w: "wf_heap (heap example_ref_state)"
    by (simp add: wf_heap_def example_ref_state_def example_heap_def less_Suc_eq prod_set_simps)
  have b: "below (length (heap example_ref_state)) (data_ref example_ref_state)"
    by (simp add: example_ref_state_def example_heap_def)
  have bv: "below (length (heap example_ref_state)) (HStr ''b'')"
    by simp
  have st: "validate_start_r example_ref_state = (?cd, snd (validate_start_r example_ref_state))"
    by simp
  have p: "parse ''tags[0]'' = Inr [Key ''tags'', Index 0]"
    by (simp add: parse_def cons_segment_def is_digit_def nat_of_digits_def digit_val_def)
  have r0: "read_tree (heap example_ref_state) (data_ref example_ref_state)
     = Obj [(''email'', Str []), (''tags'', Arr [Str ''a''])]"
    by (simp add: example_ref_state_def example_heap_def)
  have v0: "fst (validate tag_config (view example_ref_state))
      = Inr (Obj [(''tags'', Str ''reserved'')])"
    "errors (snd (validate tag_config (view example_ref_state)))
      = Obj [(''tags'', Str ''reserved'')]"
    by (simp_all add: validate_result view_def r0 executeValidation_def tag_config_def
        reserved_tag_def child_def lookup_elem_def)
  have x: "executeValidation (Obj [(''email'', Str []), (''tags'', Arr [Str ''b''])])
     (cfg_validate tag_config) = Inr Undefined"
    by (simp add: executeValidation_def tag_config_def reserved_tag_def child_def lookup_elem_def)
  note t = validate_snapshot_isolated[OF w b bv st, of example_bridge "''tags[0]''" None
      tag_config HUndefined]
  from t have c1: "read_tree (heap ?S) ?cd
      = read_tree (heap example_ref_state) (data_ref example_ref_state)"
    by blast
  from t p have c2: "read_tree (heap ?S) (data_ref ?S)
      = set_segments [Key ''tags'', Index 0]
          (read_tree (heap example_ref_state) (data_ref example_ref_state))
          (read_tree (heap example_ref_state) (HStr ''b''))"
    by blast
  from t have c3: "fst (validate_finish_r tag_config ?cd ?S)
      = fst (validate tag_config (view example_ref_state))"
    by blast
  from t have c4: "errors_tree (snd (validate_finish_r tag_config ?cd ?S))
      = errors (snd (validate tag_config (view example_ref_state)))"
    by blast
  have c2': "read_tree (heap ?S) (data_ref ?S) = Obj [(''email'', Str []), (''tags'', Arr [Str ''b''])]"
    unfolding c2 r0 by (simp add: child_def lookup_elem_def update_elem_def)
  show ?thesis
    using w b p r0 c1 c2' x c3 c4 v0 by simp
qed

text \<open>
  C3. When some validator fails on the snapshot, \<^verbatim>\<open>validate\<close> fails with the failure of
  a validator, and the errors store is not written: it keeps its value, and the trace
  of the call holds the write of the Touched Tree and the validation run only.
\<close>

theorem validate_failure_keeps_errors:
  assumes "\<exists>v\<in>set (cfg_validate cfg). \<exists>e. v (data s) = Inl e"
  shows "\<exists>e. fst (validate cfg s) = Inl e \<and>
              (\<exists>v\<in>set (cfg_validate cfg). v (data s) = Inl e) \<and>
              errors (snd (validate cfg s)) = errors s \<and>
              trace (snd (validate cfg s)) =
                trace s @ [Touched_written (deepSet (touched s) (Bool True)),
                           Validation_started (data s)]"
proof -
  from assms obtain e where e: "run_validators (cfg_validate cfg) (data s) = Inl e"
    using run_validators_fails[of "cfg_validate cfg" "data s"] by blast
  then have x: "executeValidation (data s) (cfg_validate cfg) = Inl e"
    by (simp add: executeValidation_def)
  have v: "validate cfg s =
      (Inl e, (touched_set (deepSet (touched s) (Bool True)) s)
            \<lparr>trace := trace (touched_set (deepSet (touched s) (Bool True)) s)
                       @ [Validation_started (data s)]\<rparr>)"
    using x by (simp add: validate_def validate_start_def validate_finish_def Let_def)
  from run_validators_error[OF e] have "\<exists>v\<in>set (cfg_validate cfg). v (data s) = Inl e" .
  then show ?thesis
    by (simp add: v touched_set_def)
qed

theorem validate_failure_keeps_errors_witness:
  "(\<exists>v\<in>set (cfg_validate rejecting_config). \<exists>e. v (data example_state) = Inl e) \<and>
   fst (validate rejecting_config example_state) = Inl (ValidatorFailure ''schema unavailable'') \<and>
   errors (snd (validate rejecting_config example_state)) = Obj [(''name'', Str ''stale'')] \<and>
   trace (snd (validate rejecting_config example_state)) =
     [Touched_written (Obj [(''name'', Bool True)]),
      Validation_started (Obj [(''email'', Str []), (''name'', Str ''Ada'')])]"
proof -
  have h: "\<exists>v\<in>set (cfg_validate rejecting_config). \<exists>e. v (data example_state) = Inl e"
    by (simp add: rejecting_config_def rejecting_def)
  from validate_failure_keeps_errors[OF h]
  obtain e where e: "fst (validate rejecting_config example_state) = Inl e"
    "\<exists>v\<in>set (cfg_validate rejecting_config). v (data example_state) = Inl e"
    "errors (snd (validate rejecting_config example_state)) = errors example_state"
    "trace (snd (validate rejecting_config example_state)) =
                trace example_state @ [Touched_written (deepSet (touched example_state) (Bool True)),
                           Validation_started (data example_state)]"
    by blast
  from e(2) have "e = ValidatorFailure ''schema unavailable''"
    by (auto simp: rejecting_config_def rejecting_def required_email_def split: if_splits)
  with e h show ?thesis by (simp add: example_state_def)
qed

text \<open>
  C9. When some validator fails on the snapshot, \<^verbatim>\<open>validate\<close> fails, and the touched
  store has been replaced all the same by the tree with every leaf true: the write is
  in the trace and is not undone.
\<close>

theorem validate_failure_still_touches:
  assumes "\<exists>v\<in>set (cfg_validate cfg). \<exists>e. v (data s) = Inl e"
  shows "(\<exists>e. fst (validate cfg s) = Inl e) \<and>
         touched (snd (validate cfg s)) = deepSet (touched s) (Bool True) \<and>
         list_all (\<lambda>l. l = Bool True) (leaves (touched (snd (validate cfg s)))) \<and>
         Touched_written (deepSet (touched s) (Bool True)) \<in> set (trace (snd (validate cfg s)))"
proof -
  from assms obtain e where e: "run_validators (cfg_validate cfg) (data s) = Inl e"
    using run_validators_fails[of "cfg_validate cfg" "data s"] by blast
  then have x: "executeValidation (data s) (cfg_validate cfg) = Inl e"
    by (simp add: executeValidation_def)
  have v: "validate cfg s =
      (Inl e, (touched_set (deepSet (touched s) (Bool True)) s)
            \<lparr>trace := trace (touched_set (deepSet (touched s) (Bool True)) s)
                       @ [Validation_started (data s)]\<rparr>)"
    using x by (simp add: validate_def validate_start_def validate_finish_def Let_def)
  have l: "list_all (\<lambda>l. l = Bool True) (leaves (deepSet (touched s) (Bool True)))"
    by (rule leaves_deepSet) simp
  show ?thesis
    using l by (simp add: v touched_set_def)
qed

theorem validate_failure_still_touches_witness:
  "(\<exists>v\<in>set (cfg_validate rejecting_config). \<exists>e. v (data example_state) = Inl e) \<and>
   (\<exists>e. fst (validate rejecting_config example_state) = Inl e) \<and>
   touched example_state = Obj [(''name'', Bool False)] \<and>
   touched (snd (validate rejecting_config example_state)) = Obj [(''name'', Bool True)]"
proof -
  have h: "\<exists>v\<in>set (cfg_validate rejecting_config). \<exists>e. v (data example_state) = Inl e"
    by (simp add: rejecting_config_def rejecting_def)
  from validate_failure_still_touches[OF h] show ?thesis
    using h by (simp add: example_state_def)
qed

section \<open>The claims on reset, setFields and setField\<close>



text \<open>
  C5. In every state, \<^verbatim>\<open>reset\<close> leaves the errors store as it is, stale entries
  included: it writes the data store and the touched store, once each, and nothing else.
\<close>

theorem reset_keeps_errors:
  "errors (reset br s) = errors s \<and>
   trace (reset br s) =
     trace s @ [Data_written (initialValues s), Touched_written (deepSet (touched s) (Bool False))]"
  by (simp add: reset_def setFields_state touched_set_def Let_def u_cloneDeep_id)

theorem reset_keeps_errors_witness:
  "errors example_state = Obj [(''name'', Str ''stale'')] \<and>
   errors (reset example_bridge example_state) = Obj [(''name'', Str ''stale'')] \<and>
   trace (reset example_bridge example_state) =
     [Data_written (Obj [(''email'', Str []), (''name'', Str [])]),
      Touched_written (Obj [(''name'', Bool False)])]"
  using reset_keeps_errors[of example_bridge example_state]
  by (simp add: example_state_def)



text \<open>
  C7. \<^verbatim>\<open>setField(path, value, touch)\<close> on a malformed path raises what \<^verbatim>\<open>set\<close> raises
  and changes nothing. On a valid path it returns normally; the data store holds what
  \<^verbatim>\<open>set\<close> gives at \<open>path\<close>, and reads \<open>value\<close> there; unless \<open>touch\<close> is false, the
  Touched Tree is set to true at \<open>path\<close>, and with \<open>touch\<close> false it is left alone; the
  errors store is left alone. With no form node there is none afterwards. With a form
  node, the elements stay as many; when no element is a named form control with the
  path \<open>path\<close> they are unchanged, and otherwise the first such element receives
  \<open>value\<close> and every other element is unchanged.
\<close>

theorem setField_effects:
  "(\<forall>e. parse path = Inl e \<longrightarrow> setField br path v touch s = (Inl e, s)) \<and>
   (\<forall>sgs. parse path = Inr sgs \<longrightarrow>
      fst (setField br path v touch s) = Inr () \<and>
      u_set (data s) path v = Inr (data (snd (setField br path v touch s))) \<and>
      u_get (data (snd (setField br path v touch s))) path = Inr v \<and>
      (if touch = Some False then touched (snd (setField br path v touch s)) = touched s
       else u_set (touched s) path (Bool True) = Inr (touched (snd (setField br path v touch s))) \<and>
            u_get (touched (snd (setField br path v touch s))) path = Inr (Bool True)) \<and>
      errors (snd (setField br path v touch s)) = errors s \<and>
      (formNode s = None \<longrightarrow> formNode (snd (setField br path v touch s)) = None) \<and>
      (\<forall>els. formNode s = Some els \<longrightarrow>
         (\<exists>els'. formNode (snd (setField br path v touch s)) = Some els' \<and>
            length els' = length els \<and>
            (list_all (\<lambda>c. \<not> targets br path c) els \<longrightarrow> els' = els) \<and>
            (\<forall>i<length els.
               targets br path (els ! i) \<and> list_all (\<lambda>c. \<not> targets br path c) (take i els)
               \<longrightarrow> els' = els[i := setControlValue br (els ! i) v]))))"
proof (intro conjI allI impI)
  fix e assume "parse path = Inl e"
  then show "setField br path v touch s = (Inl e, s)" by (rule setField_malformed)
next
  fix sgs assume p: "parse path = Inr sgs"
  note st = setField_state[OF p]
  show "fst (setField br path v touch s) = Inr ()" by (simp add: st)
  show "u_set (data s) path v = Inr (data (snd (setField br path v touch s)))"
    by (simp add: st u_set_def p)
  show "u_get (data (snd (setField br path v touch s))) path = Inr v"
    by (simp add: st u_get_def p resolve_set_segments)
  show "if touch = Some False then touched (snd (setField br path v touch s)) = touched s
       else u_set (touched s) path (Bool True) = Inr (touched (snd (setField br path v touch s))) \<and>
            u_get (touched (snd (setField br path v touch s))) path = Inr (Bool True)"
    by (simp add: st u_set_def u_get_def p resolve_set_segments)
  show "errors (snd (setField br path v touch s)) = errors s" by (simp add: st)
  show "formNode (snd (setField br path v touch s)) = None" if "formNode s = None"
    using that by (simp add: st)
  show "\<exists>els'. formNode (snd (setField br path v touch s)) = Some els' \<and>
            length els' = length els \<and>
            (list_all (\<lambda>c. \<not> targets br path c) els \<longrightarrow> els' = els) \<and>
            (\<forall>i<length els.
               targets br path (els ! i) \<and> list_all (\<lambda>c. \<not> targets br path c) (take i els)
               \<longrightarrow> els' = els[i := setControlValue br (els ! i) v])"
    if f: "formNode s = Some els" for els
  proof (intro exI conjI allI impI)
    show "formNode (snd (setField br path v touch s)) = Some (push_control br path v els)"
      using f by (simp add: st)
    show "length (push_control br path v els) = length els" by (rule push_control_length)
    show "push_control br path v els = els" if "list_all (\<lambda>c. \<not> targets br path c) els"
      using that by (rule push_control_none)
    show "push_control br path v els = els[i := setControlValue br (els ! i) v]"
      if "i < length els"
        "targets br path (els ! i) \<and> list_all (\<lambda>c. \<not> targets br path c) (take i els)" for i
      using that push_control_first[of i els br path v] by blast
  qed
qed

theorem setField_effects_witness:
  "parse ''email'' = Inr [Key ''email''] \<and>
   fst (setField example_bridge ''email'' (Str ''x'') None example_state) = Inr () \<and>
   u_get (data (snd (setField example_bridge ''email'' (Str ''x'') None example_state))) ''email''
     = Inr (Str ''x'') \<and>
   u_get (touched (snd (setField example_bridge ''email'' (Str ''x'') None example_state))) ''email''
     = Inr (Bool True) \<and>
   formNode example_state = Some example_form \<and>
   targets example_bridge ''email'' (example_form ! 2) \<and>
   list_all (\<lambda>c. \<not> targets example_bridge ''email'' c) (take 2 example_form) \<and>
   formNode (snd (setField example_bridge ''email'' (Str ''x'') None example_state))
     = Some [\<lparr>el_control = False, el_name = ''email'', el_path = ''email'', el_value = Undefined\<rparr>,
             \<lparr>el_control = True, el_name = ''name'', el_path = ''name'', el_value = Str ''Ada''\<rparr>,
             \<lparr>el_control = True, el_name = ''email'', el_path = ''email'', el_value = Str ''x''\<rparr>,
             \<lparr>el_control = True, el_name = ''email'', el_path = ''email'', el_value = Str []\<rparr>] \<and>
   parse ''a..b'' = Inl MalformedPath \<and>
   setField example_bridge ''a..b'' (Str ''x'') None example_state = (Inl MalformedPath, example_state)"
proof -
  let ?s' = "snd (setField example_bridge ''email'' (Str ''x'') None example_state)"
  have p: "parse ''email'' = Inr [Key ''email'']"
    by (simp add: parse_def)
  have q: "parse ''a..b'' = Inl MalformedPath"
    by (simp add: parse_def cons_segment_def)
  have f: "formNode example_state = Some example_form"
    by (simp add: example_state_def)
  have t: "targets example_bridge ''email'' (example_form ! 2)"
    by (simp add: targets_def example_bridge_def example_form_def)
  have n: "list_all (\<lambda>c. \<not> targets example_bridge ''email'' c) (take 2 example_form)"
    by (simp add: targets_def example_bridge_def example_form_def)
  have len: "2 < length example_form"
    by (simp add: example_form_def)
  note e = setField_effects[of "''email''" example_bridge "Str ''x''" None example_state]
  from e p have a: "fst (setField example_bridge ''email'' (Str ''x'') None example_state) = Inr ()"
    "u_get (data ?s') ''email'' = Inr (Str ''x'')"
    "u_get (touched ?s') ''email'' = Inr (Bool True)"
    by simp_all
  from e p f obtain els' where els': "formNode ?s' = Some els'"
    "\<forall>i<length example_form.
       targets example_bridge ''email'' (example_form ! i) \<and>
       list_all (\<lambda>c. \<not> targets example_bridge ''email'' c) (take i example_form)
       \<longrightarrow> els' = example_form[i := setControlValue example_bridge (example_form ! i) (Str ''x'')]"
    by blast
  from els'(2) len t n
  have "els' = example_form[2 := setControlValue example_bridge (example_form ! 2) (Str ''x'')]"
    by blast
  then have w: "formNode ?s'
     = Some [\<lparr>el_control = False, el_name = ''email'', el_path = ''email'', el_value = Undefined\<rparr>,
             \<lparr>el_control = True, el_name = ''name'', el_path = ''name'', el_value = Str ''Ada''\<rparr>,
             \<lparr>el_control = True, el_name = ''email'', el_path = ''email'', el_value = Str ''x''\<rparr>,
             \<lparr>el_control = True, el_name = ''email'', el_path = ''email'', el_value = Str []\<rparr>]"
    using els'(1) by (simp add: example_form_def example_bridge_def)
  note e' = setField_effects[of "''a..b''" example_bridge "Str ''x''" None example_state]
  from e' q have m: "setField example_bridge ''a..b'' (Str ''x'') None example_state
      = (Inl MalformedPath, example_state)"
    by blast
  from p a f t n w q m show ?thesis by blast
qed

text \<open>
  C10. \<^verbatim>\<open>setFields(values)\<close> writes the data store only: the touched store, the errors
  store and the Initial Values Snapshot keep their values, and the trace of the call is
  the one write of the data store. \<^verbatim>\<open>setField\<close> with \<open>touch\<close> left to its default, on
  a valid path, does mark the field touched.
\<close>

theorem setFields_frame:
  "touched (setFields br values s) = touched s \<and>
   errors (setFields br values s) = errors s \<and>
   initialValues (setFields br values s) = initialValues s \<and>
   trace (setFields br values s) = trace s @ [Data_written (u_cloneDeep values)] \<and>
   (\<forall>sgs. parse path = Inr sgs \<longrightarrow>
      touched (snd (setField br path v None s)) = set_segments sgs (touched s) (Bool True) \<and>
      resolve sgs (touched (snd (setField br path v None s))) = Bool True)"
  by (auto simp: setFields_state setField_def setTouched_def u_set_def data_set_def
      touched_set_def resolve_set_segments split: option.splits)

theorem setFields_frame_witness:
  "touched (setFields example_bridge (Obj [(''email'', Str ''x'')]) example_state)
     = Obj [(''name'', Bool False)] \<and>
   errors (setFields example_bridge (Obj [(''email'', Str ''x'')]) example_state)
     = Obj [(''name'', Str ''stale'')] \<and>
   trace (setFields example_bridge (Obj [(''email'', Str ''x'')]) example_state)
     = [Data_written (Obj [(''email'', Str ''x'')])] \<and>
   parse ''email'' = Inr [Key ''email''] \<and>
   touched (snd (setField example_bridge ''email'' (Str ''x'') None example_state))
     = Obj [(''name'', Bool False), (''email'', Bool True)]"
proof -
  have p: "parse ''email'' = Inr [Key ''email'']"
    by (simp add: parse_def)
  from setFields_frame[of example_bridge "Obj [(''email'', Str ''x'')]" example_state "''email''"
      "Str ''x''"]
  show ?thesis
    using p by (simp add: example_state_def)
qed

end
